theory Spec2Isabelle
  imports Main "HOL-Library.Word" "HOL-Library.Monad_Syntax"
begin

section \<open>Buffers and big-endian reads\<close>

text \<open>
  A Node.js \<open>Buffer\<close> is a list of bytes. Every \<open>read*\<close> method raises a
  \<open>RangeError\<close> when the bytes it needs are not all inside the buffer; the model
  returns \<open>None\<close> there. All offsets in the source are non-negative integers.
\<close>

type_synonym byte = "8 word"
type_synonym buffer = "byte list"

definition be_nat :: "byte list \<Rightarrow> nat" where
  "be_nat bs = foldl (\<lambda>a b. a * 256 + unat b) 0 bs"

definition read_be :: "nat \<Rightarrow> buffer \<Rightarrow> nat \<Rightarrow> nat option" where
  "read_be n buf offset =
     (if offset + n \<le> length buf then Some (be_nat (take n (drop offset buf))) else None)"

definition readUInt8 :: "buffer \<Rightarrow> nat \<Rightarrow> nat option" where
  "readUInt8 = read_be 1"

definition readUInt16BE :: "buffer \<Rightarrow> nat \<Rightarrow> nat option" where
  "readUInt16BE = read_be 2"

definition readUInt32BE :: "buffer \<Rightarrow> nat \<Rightarrow> nat option" where
  "readUInt32BE = read_be 4"

definition readBigUInt64BE :: "buffer \<Rightarrow> nat \<Rightarrow> nat option" where
  "readBigUInt64BE = read_be 8"

definition signed_of :: "nat \<Rightarrow> nat \<Rightarrow> int" where
  "signed_of bits n = (if n < 2 ^ (bits - 1) then int n else int n - 2 ^ bits)"

definition readInt16BE :: "buffer \<Rightarrow> nat \<Rightarrow> int option" where
  "readInt16BE buf offset = map_option (signed_of 16) (read_be 2 buf offset)"

definition readInt32BE :: "buffer \<Rightarrow> nat \<Rightarrow> int option" where
  "readInt32BE buf offset = map_option (signed_of 32) (read_be 4 buf offset)"

text \<open>
  \<open>Number(b)\<close> for a non-negative BigInt \<open>b\<close>: the nearest IEEE-754 double, ties to
  even. A double has 53 significant bits, so every integer below \<open>2 ^ 53\<close> is kept and
  a larger one is rounded to a multiple of \<open>2 ^ (bitlen b - 53)\<close>. The result is always
  an integer, so it is a \<open>nat\<close> here.
\<close>

fun bitlen :: "nat \<Rightarrow> nat" where
  "bitlen n = (if n = 0 then 0 else Suc (bitlen (n div 2)))"

declare bitlen.simps [simp del]

definition js_Number :: "nat \<Rightarrow> nat" where
  "js_Number b =
     (if b < 2 ^ 53 then b
      else let e = bitlen b - 53; q = b div 2 ^ e; r = b mod 2 ^ e; half = 2 ^ (e - 1)
           in (if r > half \<or> (r = half \<and> odd q) then q + 1 else q) * 2 ^ e)"

section \<open>parser.js: TeltonikaParser\<close>

subsection \<open>parseIMEI\<close>

text \<open>
  \<open>buffer.slice(2, 17)\<close> clamps to the buffer, and \<open>toString('ascii')\<close> clears
  the top bit of every byte before it makes the character. The regular expression
  \<open>/^\d{15}$/\<close> holds of exactly the strings of 15 ASCII digits. Every exception is
  caught and turned into \<open>null\<close>, here \<open>None\<close>.
\<close>

definition ascii_char :: "byte \<Rightarrow> char" where
  "ascii_char b = char_of (unat b mod 128)"

definition toString_ascii :: "byte list \<Rightarrow> string" where
  "toString_ascii bs = map ascii_char bs"

definition is_digit :: "char \<Rightarrow> bool" where
  "is_digit c = (48 \<le> (of_char c :: nat) \<and> (of_char c :: nat) \<le> 57)"

definition all_digits15 :: "string \<Rightarrow> bool" where
  "all_digits15 s = (length s = 15 \<and> list_all is_digit s)"

definition parseIMEI :: "buffer \<Rightarrow> string option" where
  "parseIMEI buf =
     (case readUInt16BE buf 0 of
        None \<Rightarrow> None
      | Some imeiLength \<Rightarrow>
          if imeiLength \<noteq> 15 then None
          else let imei = toString_ascii (take imeiLength (drop 2 buf))
               in if \<not> all_digits15 imei then None else Some imei)"

subsection \<open>IO elements\<close>

text \<open>
  \<open>parseIOElements\<close> is only called with \<open>byteLength\<close> 1, 2, 4 and 8 (its
  \<open>switch\<close> has no other case), so the width is an enumeration. Ids, counts and the
  event id take two bytes when the codec is \<open>0x8E\<close> and one byte otherwise. The
  JavaScript object keyed by \<open>io_<id>\<close> is a map keyed by the id.
\<close>

datatype byteLength = B1 | B2 | B4 | B8

fun width :: "byteLength \<Rightarrow> nat" where
  "width B1 = 1"
| "width B2 = 2"
| "width B4 = 4"
| "width B8 = 8"

definition hdr_width :: "nat \<Rightarrow> nat" where
  "hdr_width codec = (if codec = 0x8E then 2 else 1)"

definition read_hdr :: "buffer \<Rightarrow> nat \<Rightarrow> nat \<Rightarrow> nat option" where
  "read_hdr buf offset codec =
     (if codec = 0x8E then readUInt16BE buf offset else readUInt8 buf offset)"

fun read_value :: "buffer \<Rightarrow> nat \<Rightarrow> byteLength \<Rightarrow> nat option" where
  "read_value buf offset B1 = readUInt8 buf offset"
| "read_value buf offset B2 = readUInt16BE buf offset"
| "read_value buf offset B4 = readUInt32BE buf offset"
| "read_value buf offset B8 = map_option js_Number (readBigUInt64BE buf offset)"

type_synonym io_map = "nat \<rightharpoonup> nat"

function io_loop ::
  "buffer \<Rightarrow> nat \<Rightarrow> byteLength \<Rightarrow> nat \<Rightarrow> nat \<Rightarrow> nat \<Rightarrow> io_map \<Rightarrow> (io_map \<times> nat) option" where
  "io_loop buf codec bl count i offset io =
     (if i < count then
        (case read_hdr buf offset codec of
           None \<Rightarrow> None
         | Some ioID \<Rightarrow>
             (case read_value buf (offset + hdr_width codec) bl of
                None \<Rightarrow> None
              | Some v \<Rightarrow>
                  io_loop buf codec bl count (Suc i)
                    (offset + hdr_width codec + width bl) (io(ioID \<mapsto> v))))
      else Some (io, offset))"
  by pat_completeness auto
termination
  by (relation "measure (\<lambda>(buf, codec, bl, count, i, offset, io). count - i)") auto

declare io_loop.simps [simp del]

definition parseIOElements ::
  "buffer \<Rightarrow> nat \<Rightarrow> byteLength \<Rightarrow> nat \<Rightarrow> (io_map \<times> nat) option" where
  "parseIOElements buf offset bl codec =
     (case read_hdr buf offset codec of
        None \<Rightarrow> None
      | Some count \<Rightarrow> io_loop buf codec bl count 0 (offset + hdr_width codec) Map.empty)"

text \<open>\<open>Object.assign(io, r.data)\<close> is \<open>io ++ data\<close>: the later value wins.\<close>

definition parseIOElement :: "buffer \<Rightarrow> nat \<Rightarrow> nat \<Rightarrow> (io_map \<times> nat \<times> nat) option" where
  "parseIOElement buf offset codec = do {
     eventID \<leftarrow> read_hdr buf offset codec;
     let offset = offset + hdr_width codec;
     totalElements \<leftarrow> read_hdr buf offset codec;
     let offset = offset + hdr_width codec;
     (d1, offset) \<leftarrow> parseIOElements buf offset B1 codec;
     let io = Map.empty ++ d1;
     (d2, offset) \<leftarrow> parseIOElements buf offset B2 codec;
     let io = io ++ d2;
     (d4, offset) \<leftarrow> parseIOElements buf offset B4 codec;
     let io = io ++ d4;
     (d8, offset) \<leftarrow> parseIOElements buf offset B8 codec;
     let io = io ++ d8;
     Some (io, eventID, offset)
   }"

text \<open>
  The offset at which \<open>parseIOElement\<close> makes its fourth call of
  \<open>parseIOElements\<close> (the group of 8-byte values), for stating facts about that group.
\<close>

definition io8_offset :: "buffer \<Rightarrow> nat \<Rightarrow> nat \<Rightarrow> nat option" where
  "io8_offset buf offset codec = do {
     let offset = offset + hdr_width codec + hdr_width codec;
     (d1, offset) \<leftarrow> parseIOElements buf offset B1 codec;
     (d2, offset) \<leftarrow> parseIOElements buf offset B2 codec;
     (d4, offset) \<leftarrow> parseIOElements buf offset B4 codec;
     Some offset
   }"

subsection \<open>GPS element and AVL record\<close>

text \<open>
  Longitude and latitude are the signed 32-bit integers read from the wire; the source
  divides them by \<open>10000000\<close> in floating point, so the model keeps the numerator (in
  units of \<open>1e-7\<close> degree). \<open>recorded_at\<close> is the instant in milliseconds that the
  ISO-8601 string of the source denotes. \<open>toISOString\<close> raises a \<open>RangeError\<close> on
  a \<open>Date\<close> whose time value is beyond \<open>8.64e15\<close> milliseconds.
\<close>

record gps_element =
  longitude :: int
  latitude :: int
  altitude :: int
  angle :: nat
  satellites :: nat
  speed :: nat

definition parseGPSElement :: "buffer \<Rightarrow> nat \<Rightarrow> (gps_element \<times> nat) option" where
  "parseGPSElement buf offset = do {
     lon \<leftarrow> readInt32BE buf offset;
     let offset = offset + 4;
     lat \<leftarrow> readInt32BE buf offset;
     let offset = offset + 4;
     alt \<leftarrow> readInt16BE buf offset;
     let offset = offset + 2;
     ang \<leftarrow> readUInt16BE buf offset;
     let offset = offset + 2;
     sat \<leftarrow> readUInt8 buf offset;
     let offset = offset + 1;
     spd \<leftarrow> readUInt16BE buf offset;
     let offset = offset + 2;
     Some (\<lparr>longitude = lon, latitude = lat, altitude = alt, angle = ang,
            satellites = sat, speed = spd\<rparr>, offset)
   }"

record avl_record = gps_element +
  recorded_at :: nat
  priority :: nat
  io_elements :: io_map
  event_id :: nat

definition toISOString :: "nat \<Rightarrow> nat option" where
  "toISOString ms = (if ms \<le> 8640000000000000 then Some ms else None)"

definition parseAVLRecord :: "buffer \<Rightarrow> nat \<Rightarrow> nat \<Rightarrow> (avl_record \<times> nat) option" where
  "parseAVLRecord buf offset codec = do {
     timestamp \<leftarrow> readBigUInt64BE buf offset;
     rec_at \<leftarrow> toISOString (js_Number timestamp);
     let offset = offset + 8;
     prio \<leftarrow> readUInt8 buf offset;
     let offset = offset + 1;
     (gps, offset) \<leftarrow> parseGPSElement buf offset;
     (io, eventID, offset) \<leftarrow> parseIOElement buf offset codec;
     Some (gps_element.extend gps
             (avl_record.fields rec_at prio io eventID), offset)
   }"

subsection \<open>parseAVLData\<close>

text \<open>
  The record loop: a record that fails to decode (\<open>parseAVLRecord\<close> returned
  \<open>null\<close>) is not pushed and leaves \<open>offset\<close> as it was; \<open>i\<close> advances either
  way. The loop returns the records, the final offset and the final value of \<open>i\<close>.
\<close>

function avl_loop ::
  "buffer \<Rightarrow> nat \<Rightarrow> nat \<Rightarrow> nat \<Rightarrow> nat \<Rightarrow> avl_record list \<Rightarrow> avl_record list \<times> nat \<times> nat" where
  "avl_loop buf codec numberOfData i offset recs =
     (if i < numberOfData then
        (case parseAVLRecord buf offset codec of
           Some (d, newOffset) \<Rightarrow> avl_loop buf codec numberOfData (Suc i) newOffset (recs @ [d])
         | None \<Rightarrow> avl_loop buf codec numberOfData (Suc i) offset recs)
      else (recs, offset, i))"
  by pat_completeness auto
termination
  by (relation "measure (\<lambda>(buf, codec, numberOfData, i, offset, recs). numberOfData - i)") auto

declare avl_loop.simps [simp del]

record avl_packet =
  codecID :: nat
  numberOfRecords :: nat
  records :: "avl_record list"

definition parseAVLData :: "buffer \<Rightarrow> avl_packet option" where
  "parseAVLData buf =
     (case readUInt32BE buf 4 of
        None \<Rightarrow> None
      | Some dataLength \<Rightarrow>
          (case readUInt8 buf 8 of
             None \<Rightarrow> None
           | Some codec \<Rightarrow>
               if codec \<noteq> 0x08 \<and> codec \<noteq> 0x8E then None
               else (case readUInt8 buf 9 of
                       None \<Rightarrow> None
                     | Some numberOfData \<Rightarrow>
                         Some \<lparr>codecID = codec, numberOfRecords = numberOfData,
                               records = fst (avl_loop buf codec numberOfData 0 10 [])\<rparr>)))"

text \<open>
  \<open>createACK\<close>: four bytes, the count as a big-endian unsigned 32-bit integer. The
  listener calls it with 0 or with the one-byte declared count only; for a count of
  \<open>2 ^ 32\<close> or more \<open>writeUInt32BE\<close> raises a \<open>RangeError\<close>, which this
  definition does not model.
\<close>

definition createACK :: "nat \<Rightarrow> buffer" where
  "createACK n = map (\<lambda>k. of_nat (n div 256 ^ k)) [3, 2, 1, 0]"

section \<open>The wire layout of the IO section, as the specification describes it\<close>

text \<open>
  For the comparison of the two codecs, the encoder of an IO section: the event id, the
  total count and four groups (value widths 1, 2, 4 and 8), each a count followed by
  (id, value) entries, every id and count in the header width of the codec and every number
  big-endian. A record on the wire is its 24 fixed bytes (timestamp, priority, GPS element)
  followed by its IO section. \<open>decoded_records\<close> is the result expected of the decoder,
  written without reference to the codec.
\<close>

fun be_bytes :: "nat \<Rightarrow> nat \<Rightarrow> byte list" where
  "be_bytes 0 n = []"
| "be_bytes (Suc k) n = be_bytes k (n div 256) @ [of_nat n]"

declare be_bytes.simps [simp del]

definition enc_entry :: "nat \<Rightarrow> byteLength \<Rightarrow> nat \<times> nat \<Rightarrow> byte list" where
  "enc_entry codec bl e = be_bytes (hdr_width codec) (fst e) @ be_bytes (width bl) (snd e)"

definition enc_group :: "nat \<Rightarrow> byteLength \<Rightarrow> (nat \<times> nat) list \<Rightarrow> byte list" where
  "enc_group codec bl es =
     be_bytes (hdr_width codec) (length es) @ concat (map (enc_entry codec bl) es)"

record io_section =
  sec_event :: nat
  sec_total :: nat
  sec_group1 :: "(nat \<times> nat) list"
  sec_group2 :: "(nat \<times> nat) list"
  sec_group4 :: "(nat \<times> nat) list"
  sec_group8 :: "(nat \<times> nat) list"

definition enc_io_section :: "nat \<Rightarrow> io_section \<Rightarrow> byte list" where
  "enc_io_section codec sec =
     be_bytes (hdr_width codec) (sec_event sec) @ be_bytes (hdr_width codec) (sec_total sec) @
     enc_group codec B1 (sec_group1 sec) @ enc_group codec B2 (sec_group2 sec) @
     enc_group codec B4 (sec_group4 sec) @ enc_group codec B8 (sec_group8 sec)"

definition entry_fits :: "byteLength \<Rightarrow> nat \<times> nat \<Rightarrow> bool" where
  "entry_fits bl e = (fst e < 256 \<and> snd e < 256 ^ width bl)"

definition group_fits :: "byteLength \<Rightarrow> (nat \<times> nat) list \<Rightarrow> bool" where
  "group_fits bl es = (length es < 256 \<and> list_all (entry_fits bl) es)"

definition section_fits :: "io_section \<Rightarrow> bool" where
  "section_fits sec =
     (sec_event sec < 256 \<and> sec_total sec < 256 \<and>
      group_fits B1 (sec_group1 sec) \<and> group_fits B2 (sec_group2 sec) \<and>
      group_fits B4 (sec_group4 sec) \<and> group_fits B8 (sec_group8 sec))"

definition dec_val :: "byteLength \<Rightarrow> nat \<Rightarrow> nat" where
  "dec_val bl v = (case bl of B8 \<Rightarrow> js_Number v | _ \<Rightarrow> v)"

definition put_entry :: "byteLength \<Rightarrow> io_map \<Rightarrow> nat \<times> nat \<Rightarrow> io_map" where
  "put_entry bl m e = m(fst e \<mapsto> dec_val bl (snd e))"

definition group_map :: "byteLength \<Rightarrow> (nat \<times> nat) list \<Rightarrow> io_map" where
  "group_map bl es = foldl (put_entry bl) Map.empty es"

definition section_map :: "io_section \<Rightarrow> io_map" where
  "section_map sec =
     Map.empty ++ group_map B1 (sec_group1 sec) ++ group_map B2 (sec_group2 sec) ++
       group_map B4 (sec_group4 sec) ++ group_map B8 (sec_group8 sec)"

definition enc_record :: "nat \<Rightarrow> byte list \<times> io_section \<Rightarrow> byte list" where
  "enc_record codec r = fst r @ enc_io_section codec (snd r)"

definition enc_records :: "nat \<Rightarrow> (byte list \<times> io_section) list \<Rightarrow> byte list" where
  "enc_records codec rs = concat (map (enc_record codec) rs)"

definition record_fits :: "byte list \<times> io_section \<Rightarrow> bool" where
  "record_fits r = (length (fst r) = 24 \<and> section_fits (snd r))"

definition decoded_record :: "byte list \<Rightarrow> io_section \<Rightarrow> nat \<Rightarrow> avl_record" where
  "decoded_record fixed sec t =
     gps_element.extend (fst (the (parseGPSElement fixed 9)))
       (avl_record.fields t (be_nat (take 1 (drop 8 fixed))) (section_map sec) (sec_event sec))"

fun decoded_records :: "(byte list \<times> io_section) list \<Rightarrow> avl_record list" where
  "decoded_records [] = []"
| "decoded_records (r # rs) =
     (case toISOString (js_Number (be_nat (take 8 (fst r)))) of
        None \<Rightarrow> []
      | Some t \<Rightarrow> decoded_record (fst r) (snd r) t # decoded_records rs)"

section \<open>index.js: one connection\<close>

text \<open>
  The variables of the connection closure (\<open>deviceIMEI\<close>, \<open>clientConfig\<close>,
  \<open>dataBuffer\<close>) and the socket: the buffers written so far and whether \<open>end()\<close>
  has been called. \<open>client_config\<close> is the object that \<open>validateDevice\<close> builds.
  A write after \<open>end()\<close> does not reach the peer.
\<close>

record client_config =
  imei :: string
  unidad :: string
  cliente :: string
  supabaseUrl :: string
  supabaseKey :: string

record session =
  deviceIMEI :: "string option"
  clientConfig :: "client_config option"
  dataBuffer :: buffer
  written :: "buffer list"
  ended :: bool

definition new_session :: session where
  "new_session = \<lparr>deviceIMEI = None, clientConfig = None, dataBuffer = [],
                   written = [], ended = False\<rparr>"

definition socket_write :: "buffer \<Rightarrow> session \<Rightarrow> session" where
  "socket_write bytes s = (if ended s then s else s\<lparr>written := written s @ [bytes]\<rparr>)"

definition socket_end :: "session \<Rightarrow> session" where
  "socket_end s = s\<lparr>ended := True\<rparr>"

text \<open>
  The \<open>'data'\<close> listener is an \<open>async\<close> function: a call runs until its first
  \<open>await\<close> and returns; the rest runs when the awaited promise settles. \<open>on_data\<close>
  is the part before the first \<open>await\<close>; it returns the continuation that is left
  suspended, if any: at \<open>await router.validateDevice(deviceIMEI)\<close> or at
  \<open>await router.routeData(clientConfig, avlData.records)\<close>. \<open>!deviceIMEI\<close> holds of
  \<open>null\<close> only, since \<open>parseIMEI\<close> never returns the empty string. Every call made
  inside the listener catches its own exceptions, so the listener's \<open>catch\<close> block is
  not reached.
\<close>

datatype suspended =
    AwaitValidate string
  | AwaitRoute "client_config option" avl_packet

definition on_data :: "session \<Rightarrow> buffer \<Rightarrow> session \<times> suspended option" where
  "on_data s0 chunk =
     (let s = s0\<lparr>dataBuffer := dataBuffer s0 @ chunk\<rparr> in
      if deviceIMEI s = None then
        if length (dataBuffer s) < 17 then (s, None)
        else
          let s = s\<lparr>deviceIMEI := parseIMEI (dataBuffer s)\<rparr> in
          (case deviceIMEI s of
             None \<Rightarrow> (socket_end (socket_write [0x00] s), None)
           | Some i \<Rightarrow> (s, Some (AwaitValidate i)))
      else if length (dataBuffer s) < 12 then (s, None)
      else
        (case parseAVLData (dataBuffer s) of
           None \<Rightarrow> ((socket_write (createACK 0) s)\<lparr>dataBuffer := []\<rparr>, None)
         | Some avlData \<Rightarrow>
             if records avlData = [] then
               ((socket_write (createACK 0) s)\<lparr>dataBuffer := []\<rparr>, None)
             else (s, Some (AwaitRoute (clientConfig s) avlData))))"

definition resume_validate :: "session \<Rightarrow> client_config option \<Rightarrow> session" where
  "resume_validate s0 result =
     (let s = s0\<lparr>clientConfig := result\<rparr> in
      case clientConfig s of
        None \<Rightarrow> socket_end (socket_write [0x00] s)
      | Some c \<Rightarrow> (socket_write [0x01] s)\<lparr>dataBuffer := []\<rparr>)"











section \<open>router.js: DataRouter\<close>

text \<open>
  A row of \<open>vista_maestra_dispositivos\<close> and the answer of the registry query: the
  awaited promise rejects, or it gives \<open>{data, error}\<close>. \<open>falsy\<close> is JavaScript's
  \<open>!v\<close> on a value that is \<open>null\<close> or a string.
\<close>

record device_row =
  row_imei :: string
  row_unidad :: string
  row_cliente :: string
  supabase_url_destino :: "string option"
  supabase_service_key_destino :: "string option"

datatype registry_reply =
    Rejected
  | Reply "string option" "device_row option"

definition falsy :: "string option \<Rightarrow> bool" where
  "falsy v = (case v of None \<Rightarrow> True | Some x \<Rightarrow> x = [])"

text \<open>
  The router's state: the cache, the timers set by \<open>setTimeout\<close> (the instant at which
  each fires and the identity it deletes), a clock in milliseconds, and the queries sent to
  the registry so far. Time is a simulated clock: a timer fires when the clock reaches its
  instant. \<open>validateDevice\<close> is an \<open>async\<close> function with one \<open>await\<close>, the
  registry query; \<open>validateDevice_begin\<close> is the part before it and
  \<open>validateDevice_resume\<close> the part after the registry has answered. \<open>clearCache\<close>
  is not called by the listener and is not an event here.
\<close>

record router =
  clientCache :: "string \<rightharpoonup> client_config"
  timers :: "(nat \<times> string) list"
  now :: nat
  queries :: "string list"

definition new_router :: router where
  "new_router = \<lparr>clientCache = Map.empty, timers = [], now = 0, queries = []\<rparr>"

datatype lookup = Returned "client_config option" | AwaitingRegistry

definition validateDevice_begin :: "router \<Rightarrow> string \<Rightarrow> lookup \<times> router" where
  "validateDevice_begin r i =
     (case clientCache r i of
        Some c \<Rightarrow> (Returned (Some c), r)
      | None \<Rightarrow> (AwaitingRegistry, r\<lparr>queries := queries r @ [i]\<rparr>))"

definition validateDevice_resume ::
  "router \<Rightarrow> string \<Rightarrow> registry_reply \<Rightarrow> client_config option \<times> router" where
  "validateDevice_resume r i rep =
     (case rep of
        Rejected \<Rightarrow> (None, r)
      | Reply (Some e) d \<Rightarrow> (None, r)
      | Reply None None \<Rightarrow> (None, r)
      | Reply None (Some row) \<Rightarrow>
          if falsy (supabase_url_destino row) \<or> falsy (supabase_service_key_destino row)
          then (None, r)
          else
            let config = \<lparr>imei = row_imei row, unidad = row_unidad row,
                            cliente = row_cliente row,
                            supabaseUrl = the (supabase_url_destino row),
                            supabaseKey = the (supabase_service_key_destino row)\<rparr>
            in (Some config,
                r\<lparr>clientCache := (clientCache r)(i \<mapsto> config),
                  timers := timers r @ [(now r + 5 * 60 * 1000, i)]\<rparr>))"

text \<open>
  Time passing: the clock moves forward by \<open>dt\<close> and every timer due by then runs its
  callback \<open>this.clientCache.delete(imei)\<close>.
\<close>

definition fire :: "(string \<rightharpoonup> client_config) \<Rightarrow> nat \<times> string \<Rightarrow> (string \<rightharpoonup> client_config)" where
  "fire m t = m(snd t := None)"

definition advance :: "router \<Rightarrow> nat \<Rightarrow> router" where
  "advance r dt =
     (let t' = now r + dt
      in r\<lparr>now := t',
           clientCache := foldl fire (clientCache r) (filter (\<lambda>t. fst t \<le> t') (timers r)),
           timers := filter (\<lambda>t. \<not> fst t \<le> t') (timers r)\<rparr>)"

text \<open>
  What can happen to the router, in any order: a lookup begins, the registry answers a
  query, time passes. \<open>elapsed\<close> is the time that passes in a list of events.
\<close>

datatype router_event = Lookup string | RegistryReply string registry_reply | Advance nat

fun router_step :: "router \<Rightarrow> router_event \<Rightarrow> router" where
  "router_step r (Lookup i) = snd (validateDevice_begin r i)"
| "router_step r (RegistryReply i rep) = snd (validateDevice_resume r i rep)"
| "router_step r (Advance dt) = advance r dt"

definition router_run :: "router \<Rightarrow> router_event list \<Rightarrow> router" where
  "router_run = foldl router_step"

fun elapsed :: "router_event list \<Rightarrow> nat" where
  "elapsed [] = 0"
| "elapsed (Advance dt # evs) = dt + elapsed evs"
| "elapsed (e # evs) = elapsed evs"

text \<open>
  The invariant of a cached entry whose first timer fires at \<open>T\<close>: the entry is there,
  its timer is pending, no timer for the same identity fires earlier, and the clock has not
  reached \<open>T\<close>.
\<close>

definition live :: "nat \<Rightarrow> string \<Rightarrow> router \<Rightarrow> bool" where
  "live T i r =
     (clientCache r i \<noteq> None \<and> (T, i) \<in> set (timers r) \<and>
      list_all (\<lambda>t. snd t = i \<longrightarrow> T \<le> fst t) (timers r) \<and>
      now r < T \<and> T \<le> now r + 300000)"

text \<open>A timer for the identity is pending at \<open>T\<close>, and the clock has not reached it.\<close>

definition timer_pending :: "nat \<Rightarrow> string \<Rightarrow> router \<Rightarrow> bool" where
  "timer_pending T i r = ((T, i) \<in> set (timers r) \<and> now r < T)"

text \<open>
  The route that the latest successful registry answer for an identity has produced, in a
  list of events that starts with the route \<open>c\<close> cached. The route that
  \<open>validateDevice\<close> builds depends on the answer only.
\<close>

fun latest_route :: "string \<Rightarrow> client_config \<Rightarrow> router_event list \<Rightarrow> client_config" where
  "latest_route i c [] = c"
| "latest_route i c (RegistryReply j rep # evs) =
     latest_route i
       (if j = i then (case fst (validateDevice_resume new_router j rep) of
                         Some c' \<Rightarrow> c' | None \<Rightarrow> c)
        else c) evs"
| "latest_route i c (e # evs) = latest_route i c evs"

section \<open>Example frames\<close>

text \<open>
  A frame that declares two records and carries one whole record followed by a truncated
  one, and a frame that declares three records and carries three whole ones, the second
  with a timestamp beyond the range of \<open>Date\<close>.
\<close>

definition two_declared_one_whole :: buffer where
  "two_declared_one_whole =
     [0, 0, 0, 0, 0, 0, 0, 0x33, 0x08, 0x02,
      0, 0, 1, 0x8D, 0x9A, 0x5F, 0x3E, 0x80, 0,
      0xC4, 0xE8, 0x4A, 0x67, 0x0B, 0x95, 0x2B, 0xA0, 0x08, 0xC0, 0, 180, 12, 0, 60,
      1, 1, 1, 1, 1, 0, 0, 0,
      0, 0, 1, 0x8D, 0x9A, 0x5F, 0x3E, 0x80, 0]"

definition three_declared_second_bad :: buffer where
  "three_declared_second_bad =
     [0, 0, 0, 0, 0, 0, 0, 0x62, 0x08, 0x03,
      0, 0, 1, 0x8D, 0x9A, 0x5F, 0x3E, 0x80, 0,
      0xC4, 0xE8, 0x4A, 0x67, 0x0B, 0x95, 0x2B, 0xA0, 0x08, 0xC0, 0, 180, 12, 0, 60,
      1, 1, 1, 1, 1, 0, 0, 0,
      0xFF, 0xFF, 0xFF, 0xFF, 0xFF, 0xFF, 0xFF, 0xFF, 0,
      0xC4, 0xE8, 0x4A, 0x67, 0x0B, 0x95, 0x2B, 0xA0, 0x08, 0xC0, 0, 180, 12, 0, 60,
      1, 1, 1, 1, 1, 0, 0, 0,
      0, 0, 1, 0x8D, 0x9A, 0x5F, 0x3E, 0x81, 0,
      0xC4, 0xE8, 0x4A, 0x67, 0x0B, 0x95, 0x2B, 0xA0, 0x08, 0xC0, 0, 180, 12, 0, 60,
      1, 1, 1, 1, 1, 0, 0, 0]"

text \<open>
  One Codec 8 record: the fixed 24 bytes, event id 0, one 1-byte element (id 1) and one
  8-byte element (id 7) whose value has the given top and bottom bytes.
\<close>

definition one_record_io8 :: "byte \<Rightarrow> byte \<Rightarrow> buffer" where
  "one_record_io8 hi lo =
     [0, 0, 1, 0x8D, 0x9A, 0x5F, 0x3E, 0x80, 0,
      0xC4, 0xE8, 0x4A, 0x67, 0x0B, 0x95, 0x2B, 0xA0, 0x08, 0xC0, 0, 180, 12, 0, 60,
      0, 2, 1, 1, 1, 0, 0, 1, 7, 0, hi, 0, 0, 0, 0, 0, lo]"

definition io_lookup :: "nat \<Rightarrow> avl_record \<Rightarrow> nat option" where
  "io_lookup k r = io_elements r k"

text \<open>The fixed part and the IO section of one record, for both encodings.\<close>

definition example_fixed :: "byte list" where
  "example_fixed =
     [0, 0, 1, 0x8D, 0x9A, 0x5F, 0x3E, 0x80, 0,
      0xC4, 0xE8, 0x4A, 0x67, 0x0B, 0x95, 0x2B, 0xA0, 0x08, 0xC0, 0, 180, 12, 0, 60]"

definition example_section :: io_section where
  "example_section =
     \<lparr>sec_event = 1, sec_total = 2, sec_group1 = [(1, 1)], sec_group2 = [],
      sec_group4 = [], sec_group8 = [(7, 5)]\<rparr>"

text \<open>An identity frame, a route and a Codec 8 frame of one record.\<close>

definition imei_frame :: buffer where
  "imei_frame = [0x00, 0x0F, 0x31, 0x32, 0x33, 0x34, 0x35, 0x36, 0x37, 0x38, 0x39, 0x30,
                 0x31, 0x32, 0x33, 0x34, 0x35]"

definition a_route :: client_config where
  "a_route = \<lparr>imei = ''123456789012345'', unidad = ''U1'', cliente = ''C1'',
              supabaseUrl = ''https://c1'', supabaseKey = ''k''\<rparr>"





text \<open>A registry row and a list of router events that take 299999 ms.\<close>

definition a_row :: device_row where
  "a_row = \<lparr>row_imei = ''123456789012345'', row_unidad = ''U1'', row_cliente = ''C1'',
            supabase_url_destino = Some ''https://c1'',
            supabase_service_key_destino = Some ''k''\<rparr>"

definition some_events :: "router_event list" where
  "some_events = [Lookup ''123456789012345'', Advance 100000, Lookup ''999999999999999'',
                  RegistryReply ''999999999999999'' (Reply None None), Advance 199999]"

section \<open>Facts about the reads\<close>

lemmas read_defs = readUInt8_def readUInt16BE_def readUInt32BE_def readBigUInt64BE_def
  readInt16BE_def readInt32BE_def read_be_def be_nat_def signed_of_def

lemmas parser_defs = read_defs read_hdr_def hdr_width_def js_Number_def toISOString_def
  parseIOElements_def parseIOElement_def parseGPSElement_def parseAVLRecord_def
  parseAVLData_def io_loop.simps avl_loop.simps

lemmas parser_defs2 = parser_defs io8_offset_def gps_element.extend_def avl_record.fields_def

lemma be_nat_snoc: "be_nat (bs @ [b]) = be_nat bs * 256 + unat b"
  by (simp add: be_nat_def)

lemma unat_byte_less: "unat (b::byte) < 256"
  using unsigned_less [of b, where ?'a = nat] by simp

lemma be_nat_bound: "be_nat bs < 256 ^ length bs"
proof (induction bs rule: rev_induct)
  case Nil
  show ?case by (simp add: be_nat_def)
next
  case (snoc b bs)
  with unat_byte_less [of b] show ?case by (simp add: be_nat_snoc)
qed

lemma readUInt8_nth: "off < length buf \<Longrightarrow> readUInt8 buf off = Some (unat (buf ! off))"
  by (simp add: readUInt8_def read_be_def be_nat_def take_Suc_conv_app_nth [of 0]
        Cons_nth_drop_Suc [symmetric])

lemma readUInt8_None: "readUInt8 buf off = None \<longleftrightarrow> length buf \<le> off"
  by (auto simp: readUInt8_def read_be_def)

section \<open>The identity frame\<close>

lemma parseIMEI_imei_frame: "parseIMEI imei_frame = Some ''123456789012345''"
  unfolding imei_frame_def by code_simp

text \<open>
  C9. \<open>parseIMEI\<close> is a total function of the buffer (every exception of the source is
  the value \<open>None\<close>), and whatever it returns besides \<open>None\<close> is a string of exactly
  15 decimal digits. This covers the empty buffer and every truncated one.
\<close>

theorem parseIMEI_total_digits:
  "parseIMEI buf = None \<or>
   (\<exists>s. parseIMEI buf = Some s \<and> length s = 15 \<and> list_all is_digit s)"
  by (auto simp: parseIMEI_def all_digits15_def Let_def split: option.splits)

theorem parseIMEI_total_digits_witness:
  "parseIMEI [] = None \<and>
   (\<exists>s. parseIMEI imei_frame = Some s \<and> length s = 15 \<and> list_all is_digit s)"
proof -
  have "parseIMEI [] = None" by (simp add: parseIMEI_def read_defs)
  moreover from parseIMEI_total_digits [of imei_frame]
  have "\<exists>s. parseIMEI imei_frame = Some s \<and> length s = 15 \<and> list_all is_digit s"
    by (simp add: parseIMEI_imei_frame)
  ultimately show ?thesis by (rule conjI)
qed

text \<open>
  What the identity decoder does accept and reject: the encoding of every 15-digit identity
  decodes to that identity, whatever follows it; a length prefix other than 15 is rejected;
  and a payload byte is rejected when the character left after clearing its top bit is not
  a digit.
\<close>

lemma ascii_char_digit:
  assumes "is_digit c"
  shows "ascii_char (of_nat (of_char c)) = c"
proof -
  from assms have "(of_char c :: nat) < 128" by (simp add: is_digit_def)
  then have "unat (of_nat (of_char c) :: byte) mod 128 = of_char c"
    by (simp add: unat_of_nat)
  then show ?thesis by (simp add: ascii_char_def)
qed

lemma parseIMEI_roundtrip:
  assumes "length ds = 15" and "list_all is_digit ds"
  shows "parseIMEI ([0x00, 0x0F] @ map (\<lambda>c. of_nat (of_char c)) ds @ rest) = Some ds"
proof -
  have l: "readUInt16BE ([0x00, 0x0F] @ map (\<lambda>c. of_nat (of_char c)) ds @ rest) 0 = Some 15"
    by (simp add: read_defs)
  have "map ascii_char (map (\<lambda>c. of_nat (of_char c)) ds) = ds"
    using assms(2) by (induction ds) (simp_all add: ascii_char_digit)
  then have "toString_ascii (take 15 (drop 2 ([0x00, 0x0F] @ map (\<lambda>c. of_nat (of_char c)) ds @ rest))) = ds"
    using assms(1) by (simp add: toString_ascii_def)
  with l assms show ?thesis by (simp add: parseIMEI_def all_digits15_def)
qed

lemma parseIMEI_rejects_length:
  "readUInt16BE buf 0 = Some l \<Longrightarrow> l \<noteq> 15 \<Longrightarrow> parseIMEI buf = None"
  by (simp add: parseIMEI_def)

lemma parseIMEI_rejects_low_bits:
  "b \<in> set (take 15 (drop 2 buf)) \<Longrightarrow> \<not> is_digit (ascii_char b) \<Longrightarrow> parseIMEI buf = None"
  by (auto simp: parseIMEI_def all_digits15_def toString_ascii_def list_all_iff Let_def
           split: option.splits)

text \<open>
  C4. The identity check is made on the decoded string, and decoding as \<open>'ascii'\<close>
  clears the top bit of each byte: the byte \<open>0xB1\<close> is not an ASCII digit, yet it
  decodes to the character \<open>1\<close> and the frame is accepted.
\<close>

theorem parseIMEI_high_bit_accepted:
  "parseIMEI [0x00, 0x0F, 0xB1, 0x32, 0x33, 0x34, 0x35, 0x36, 0x37, 0x38, 0x39, 0x30,
              0x31, 0x32, 0x33, 0x34, 0x35] = Some ''123456789012345''"
  by code_simp

section \<open>The data frame\<close>

text \<open>
  C5. A buffer whose codec byte (offset 8) is neither \<open>0x08\<close> nor \<open>0x8E\<close> is
  rejected, whatever follows.
\<close>

theorem parseAVLData_codec:
  "8 < length buf \<Longrightarrow> buf ! 8 \<noteq> 0x08 \<Longrightarrow> buf ! 8 \<noteq> 0x8E \<Longrightarrow> parseAVLData buf = None"
proof -
  assume len: "8 < length buf" and c1: "buf ! 8 \<noteq> 0x08" and c2: "buf ! 8 \<noteq> 0x8E"
  have r: "readUInt8 buf 8 = Some (unat (buf ! 8))" using len by (rule readUInt8_nth)
  have "unat (buf ! 8) \<noteq> 8" "unat (buf ! 8) \<noteq> 0x8E"
    using c1 c2 by (simp_all add: word_unat_eq_iff)
  then show ?thesis by (simp add: parseAVLData_def r split: option.splits)
qed

theorem parseAVLData_codec_witness:
  "parseAVLData [0, 0, 0, 0, 0, 0, 0, 2, 0x07, 0] = None"
  using parseAVLData_codec [of "[0, 0, 0, 0, 0, 0, 0, 2, 0x07, 0]"] by simp

subsection \<open>The record loop\<close>

lemma avl_loop_final_i:
  "i \<le> n \<Longrightarrow> snd (snd (avl_loop buf c n i off recs)) = n"
proof (induction buf c n i off recs rule: avl_loop.induct)
  case (1 buf codec numberOfData i offset recs)
  show ?case
  proof (cases "i < numberOfData")
    case True
    with 1 show ?thesis
      by (subst avl_loop.simps) (auto split: option.splits)
  next
    case False
    with 1 show ?thesis by (subst avl_loop.simps) simp
  qed
qed

lemma avl_loop_length:
  "length (fst (avl_loop buf c n i off recs)) \<le> length recs + (n - i)"
proof (induction buf c n i off recs rule: avl_loop.induct)
  case (1 buf codec numberOfData i offset recs)
  show ?case
  proof (cases "i < numberOfData")
    case True
    show ?thesis
    proof (cases "parseAVLRecord buf offset codec")
      case None
      from 1(1) [OF True None]
      have "length (fst (avl_loop buf codec numberOfData (Suc i) offset recs))
              \<le> length recs + (numberOfData - Suc i)" .
      with True None show ?thesis by (subst avl_loop.simps) simp
    next
      case (Some a)
      obtain d newOffset where a: "a = (d, newOffset)" by (cases a)
      from 1(2) [OF True Some a [symmetric]]
      have "length (fst (avl_loop buf codec numberOfData (Suc i) newOffset (recs @ [d])))
              \<le> length (recs @ [d]) + (numberOfData - Suc i)" by simp
      with True Some a show ?thesis by (subst avl_loop.simps) simp
    qed
  next
    case False
    then show ?thesis by (subst avl_loop.simps) simp
  qed
qed

lemma avl_loop_fail_step:
  "i < n \<Longrightarrow> parseAVLRecord buf off c = None \<Longrightarrow>
   avl_loop buf c n i off recs = avl_loop buf c n (Suc i) off recs"
  by (subst avl_loop.simps) simp

lemma parseAVLData_Some_iff:
  "parseAVLData buf \<noteq> None \<longleftrightarrow> 10 \<le> length buf \<and> (buf ! 8 = 0x08 \<or> buf ! 8 = 0x8E)"
proof (cases "10 \<le> length buf")
  case True
  then have r: "readUInt8 buf 8 = Some (unat (buf ! 8))"
    "readUInt8 buf 9 = Some (unat (buf ! 9))"
    by (simp_all add: readUInt8_nth)
  have r4: "readUInt32BE buf 4 \<noteq> None"
    using True by (simp add: readUInt32BE_def read_be_def)
  have "unat (buf ! 8) = 8 \<longleftrightarrow> buf ! 8 = 8" "unat (buf ! 8) = 0x8E \<longleftrightarrow> buf ! 8 = 0x8E"
    by (simp_all add: word_unat_eq_iff)
  with True r r4 show ?thesis by (auto simp: parseAVLData_def split: option.splits)
next
  case False
  then have "readUInt8 buf 9 = None" by (simp add: readUInt8_None)
  with False show ?thesis by (auto simp: parseAVLData_def split: option.splits)
qed

lemma parseAVLData_count:
  assumes "parseAVLData buf = Some p"
  shows "numberOfRecords p = unat (buf ! 9)"
proof -
  from assms have "10 \<le> length buf" using parseAVLData_Some_iff [of buf] by simp
  then have "readUInt8 buf 9 = Some (unat (buf ! 9))" by (simp add: readUInt8_nth)
  with assms show ?thesis
    by (auto simp: parseAVLData_def split: option.splits if_splits)
qed

text \<open>
  C1. The claim is that a record which fails to decode fails the whole packet, so that a
  returned packet always holds as many records as it declares. The decoder does not do
  this. In the first frame the buffer ends inside the second record: a packet is returned
  with \<open>numberOfRecords = 2\<close> and one record. In the second frame the second record
  fails (its timestamp is beyond the range of \<open>Date\<close>); the offset is then left where
  it was, the third iteration fails at the same place, and the third record, which decodes
  without error at its own offset 74, is lost: a packet is returned with
  \<open>numberOfRecords = 3\<close> and one record.
\<close>

theorem parseAVLData_returns_partial:
  "parseAVLRecord two_declared_one_whole 42 0x08 = None \<and>
   map_option numberOfRecords (parseAVLData two_declared_one_whole) = Some 2 \<and>
   map_option (length \<circ> records) (parseAVLData two_declared_one_whole) = Some 1 \<and>
   parseAVLRecord three_declared_second_bad 42 0x08 = None \<and>
   map_option snd (parseAVLRecord three_declared_second_bad 74 0x08) = Some 106 \<and>
   map_option numberOfRecords (parseAVLData three_declared_second_bad) = Some 3 \<and>
   map_option (length \<circ> records) (parseAVLData three_declared_second_bad) = Some 1"
  unfolding two_declared_one_whole_def three_declared_second_bad_def
  by (simp add: parser_defs bitlen.simps)

text \<open>
  What \<open>parseAVLData\<close> does return: \<open>null\<close> exactly when the ten header bytes are
  not all there or the codec byte is neither \<open>0x08\<close> nor \<open>0x8E\<close>; otherwise a
  packet whose \<open>numberOfRecords\<close> is the declared count (the byte at offset 9) and whose
  \<open>records\<close> are at most that many.
\<close>

lemma parseAVLData_result_shape:
  "(parseAVLData buf \<noteq> None \<longleftrightarrow> 10 \<le> length buf \<and> (buf ! 8 = 0x08 \<or> buf ! 8 = 0x8E)) \<and>
   (\<forall>p. parseAVLData buf = Some p \<longrightarrow>
        numberOfRecords p = unat (buf ! 9) \<and> length (records p) \<le> numberOfRecords p)"
proof (intro conjI allI impI)
  show "parseAVLData buf \<noteq> None \<longleftrightarrow> 10 \<le> length buf \<and> (buf ! 8 = 0x08 \<or> buf ! 8 = 0x8E)"
    by (rule parseAVLData_Some_iff)
next
  fix p assume p: "parseAVLData buf = Some p"
  show n: "numberOfRecords p = unat (buf ! 9)" using p by (rule parseAVLData_count)
  have "records p = fst (avl_loop buf (codecID p) (numberOfRecords p) 0 10 [])"
    using p by (auto simp: parseAVLData_def split: option.splits if_splits)
  with avl_loop_length [of buf "codecID p" "numberOfRecords p" 0 10 "[]"]
  show "length (records p) \<le> numberOfRecords p" by simp
qed

text \<open>
  C10. The two loops of the decoder are defined by well-founded recursion on
  \<open>count - i\<close>, so \<open>parseAVLData\<close> is total. The record loop leaves with \<open>i\<close>
  equal to the declared count, having added one to \<open>i\<close> in each iteration; an iteration
  whose record fails to decode changes neither the offset nor the records and still moves
  to \<open>i + 1\<close>; and the declared count is one byte, at most 255.
\<close>

theorem parseAVLData_loop_bounded:
  "snd (snd (avl_loop buf codec n 0 offset [])) = n \<and>
   (\<forall>i recs. i < n \<and> parseAVLRecord buf offset codec = None \<longrightarrow>
        avl_loop buf codec n i offset recs = avl_loop buf codec n (Suc i) offset recs) \<and>
   (\<forall>p. parseAVLData buf = Some p \<longrightarrow> numberOfRecords p \<le> 255)"
proof (intro conjI allI impI)
  show "snd (snd (avl_loop buf codec n 0 offset [])) = n"
    by (rule avl_loop_final_i) simp
next
  fix i recs
  assume "i < n \<and> parseAVLRecord buf offset codec = None"
  then show "avl_loop buf codec n i offset recs = avl_loop buf codec n (Suc i) offset recs"
    by (simp add: avl_loop_fail_step)
next
  fix p assume p: "parseAVLData buf = Some p"
  have "unat (buf ! 9) < 256" by (rule unat_byte_less)
  with parseAVLData_count [OF p] show "numberOfRecords p \<le> 255" by simp
qed

theorem parseAVLData_loop_bounded_witness:
  "parseAVLRecord [0, 0, 0, 0, 0, 0, 0, 0, 0x08, 0x02] 10 0x08 = None \<and>
   avl_loop [0, 0, 0, 0, 0, 0, 0, 0, 0x08, 0x02] 0x08 2 0 10 [] =
     avl_loop [0, 0, 0, 0, 0, 0, 0, 0, 0x08, 0x02] 0x08 2 1 10 [] \<and>
   snd (snd (avl_loop [0, 0, 0, 0, 0, 0, 0, 0, 0x08, 0x02] 0x08 2 0 10 [])) = 2 \<and>
   map_option numberOfRecords (parseAVLData [0, 0, 0, 0, 0, 0, 0, 0, 0x08, 0x02]) = Some 2"
  using parseAVLData_loop_bounded [of "[0, 0, 0, 0, 0, 0, 0, 0, 0x08, 0x02]" "0x08" 2 10]
  by (simp add: parser_defs)

section \<open>IO elements of eight bytes\<close>

lemma js_Number_exact: "v \<le> 2 ^ 53 \<Longrightarrow> js_Number v = v"
proof (cases "v < 2 ^ 53")
  case True
  then show ?thesis by (simp add: js_Number_def)
next
  case False
  assume "v \<le> 2 ^ 53"
  with False have v: "v = 9007199254740992" by simp
  have "bitlen 9007199254740992 = 54" by (simp add: bitlen.simps)
  then show ?thesis unfolding v by (simp add: js_Number_def)
qed

lemma io_loop_untouched:
  "io_loop buf codec bl count i offset io = Some (io', off') \<Longrightarrow>
   (\<forall>m. m < count - i \<longrightarrow>
      read_hdr buf (offset + m * (hdr_width codec + width bl)) codec \<noteq> Some key) \<Longrightarrow>
   io' key = io key"
proof (induction buf codec bl count i offset io rule: io_loop.induct)
  case (1 buf codec bl count i offset io)
  show ?case
  proof (cases "i < count")
    case False
    with "1.prems"(1) show ?thesis by (subst (asm) io_loop.simps) simp
  next
    case True
    from "1.prems"(1) True obtain ioID v where
      h: "read_hdr buf offset codec = Some ioID"
      and rv: "read_value buf (offset + hdr_width codec) bl = Some v"
      and rest: "io_loop buf codec bl count (Suc i) (offset + hdr_width codec + width bl)
                   (io(ioID \<mapsto> v)) = Some (io', off')"
      by (subst (asm) io_loop.simps) (auto split: option.splits)
    from "1.prems"(2) [rule_format, of 0] True h have ne: "ioID \<noteq> key" by auto
    have later: "\<forall>m. m < count - Suc i \<longrightarrow>
        read_hdr buf (offset + hdr_width codec + width bl + m * (hdr_width codec + width bl)) codec
          \<noteq> Some key"
    proof (intro allI impI)
      fix m assume "m < count - Suc i"
      then have "Suc m < count - i" by simp
      from "1.prems"(2) [rule_format, OF this] 
      show "read_hdr buf (offset + hdr_width codec + width bl + m * (hdr_width codec + width bl)) codec
          \<noteq> Some key" by (simp add: add.assoc)
    qed
    from "1.IH" [OF True h rv rest later] ne show ?thesis by simp
  qed
qed

lemma io_loop_entry:
  "io_loop buf codec bl count i offset io = Some (io', off') \<Longrightarrow>
   m < count - i \<Longrightarrow>
   read_hdr buf (offset + m * (hdr_width codec + width bl)) codec = Some ioID \<Longrightarrow>
   read_value buf (offset + m * (hdr_width codec + width bl) + hdr_width codec) bl = Some v \<Longrightarrow>
   (\<forall>j. m < j \<and> j < count - i \<longrightarrow>
      read_hdr buf (offset + j * (hdr_width codec + width bl)) codec \<noteq> Some ioID) \<Longrightarrow>
   io' ioID = Some v"
proof (induction buf codec bl count i offset io arbitrary: m rule: io_loop.induct)
  case (1 buf codec bl count i offset io)
  from "1.prems"(2) have True: "i < count" by simp
  from "1.prems"(1) True obtain ioID0 v0 where
      h: "read_hdr buf offset codec = Some ioID0"
      and rv: "read_value buf (offset + hdr_width codec) bl = Some v0"
      and rest: "io_loop buf codec bl count (Suc i) (offset + hdr_width codec + width bl)
                   (io(ioID0 \<mapsto> v0)) = Some (io', off')"
      by (subst (asm) io_loop.simps) (auto split: option.splits)
  show ?case
  proof (cases m)
    case 0
    with "1.prems"(3,4) h rv have eq: "ioID0 = ioID" "v0 = v" by simp_all
    have later: "\<forall>m'. m' < count - Suc i \<longrightarrow>
        read_hdr buf (offset + hdr_width codec + width bl + m' * (hdr_width codec + width bl)) codec
          \<noteq> Some ioID"
    proof (intro allI impI)
      fix m' assume "m' < count - Suc i"
      then have "m < Suc m' \<and> Suc m' < count - i" using 0 by auto
      from "1.prems"(5) [rule_format, OF this] 
      show "read_hdr buf (offset + hdr_width codec + width bl + m' * (hdr_width codec + width bl)) codec
          \<noteq> Some ioID" by (simp add: add.assoc)
    qed
    from io_loop_untouched [OF rest later] eq show ?thesis by simp
  next
    case (Suc m')
    have a: "m' < count - Suc i" using "1.prems"(2) Suc by simp
    have b: "read_hdr buf (offset + hdr_width codec + width bl + m' * (hdr_width codec + width bl)) codec = Some ioID"
      using "1.prems"(3) Suc by (simp add: add.assoc)
    have c: "read_value buf (offset + hdr_width codec + width bl + m' * (hdr_width codec + width bl) + hdr_width codec) bl = Some v"
      using "1.prems"(4) Suc by (simp add: add.assoc)
    have d: "\<forall>j. m' < j \<and> j < count - Suc i \<longrightarrow>
      read_hdr buf (offset + hdr_width codec + width bl + j * (hdr_width codec + width bl)) codec \<noteq> Some ioID"
    proof (intro allI impI)
      fix j assume "m' < j \<and> j < count - Suc i"
      then have "m < Suc j \<and> Suc j < count - i" using Suc by auto
      from "1.prems"(5) [rule_format, OF this]
      show "read_hdr buf (offset + hdr_width codec + width bl + j * (hdr_width codec + width bl)) codec \<noteq> Some ioID"
        by (simp add: add.assoc)
    qed
    from "1.IH" [OF True h rv rest a b c d] show ?thesis .
  qed
qed


lemma parseIOElement_io8:
  assumes "parseIOElement buf offset codec = Some (io, ev, off')"
  shows "\<exists>o8 d8. io8_offset buf offset codec = Some o8 \<and>
           parseIOElements buf o8 B8 codec = Some (d8, off') \<and>
           (\<forall>k x. d8 k = Some x \<longrightarrow> io k = Some x)"
  using assms
  by (auto simp: parseIOElement_def io8_offset_def Let_def add.assoc map_add_Some_iff
           split: bind_splits prod.splits)

lemma parseGPSElement_offset:
  "parseGPSElement buf offset = Some (g, off') \<Longrightarrow> off' = offset + 15"
  by (auto simp: parseGPSElement_def Let_def split: bind_splits)

lemma parseAVLRecord_io:
  assumes "parseAVLRecord buf offset codec = Some (r, off')"
  shows "\<exists>ev. parseIOElement buf (offset + 24) codec = Some (io_elements r, ev, off')"
proof -
  from assms obtain g o1 io ev where
    g: "parseGPSElement buf (offset + 8 + 1) = Some (g, o1)"
    and i: "parseIOElement buf o1 codec = Some (io, ev, off')"
    and r: "r = gps_element.extend g (avl_record.fields (the (toISOString (js_Number (the (readBigUInt64BE buf offset))))) (the (readUInt8 buf (offset + 8))) io ev)"
    by (auto simp: parseAVLRecord_def Let_def split: bind_splits prod.splits)
  from parseGPSElement_offset [OF g] have "o1 = offset + 24" by simp
  moreover have "io_elements r = io" 
    unfolding r by (simp add: gps_element.extend_def avl_record.fields_def)
  ultimately show ?thesis using i by auto
qed

text \<open>
  C2, as stated, fails: the 8-byte value \<open>2 ^ 53 + 1\<close> on the wire is stored as
  \<open>2 ^ 53\<close>, because the source converts the BigInt with \<open>Number\<close>.
\<close>

theorem io8_precision_counterexample:
  "readBigUInt64BE (one_record_io8 0x20 0x01) 33 = Some (2 ^ 53 + 1) \<and>
   map_option (io_lookup 7 \<circ> fst) (parseAVLRecord (one_record_io8 0x20 0x01) 0 0x08)
     = Some (Some (2 ^ 53))"
  unfolding one_record_io8_def
  by (simp add: parser_defs2 io_lookup_def bitlen.simps)

text \<open>
  C2, amended. For the \<open>k\<close>-th entry of the 8-byte group of a decoded record (the
  last one with its id), the value stored in \<open>io_elements\<close> is \<open>Number\<close> of the
  unsigned 64-bit big-endian integer on the wire: the nearest double. It is that integer
  itself whenever the integer is at most \<open>2 ^ 53\<close>.
\<close>

theorem io8_value_is_double:
  assumes rec: "parseAVLRecord buf offset codec = Some (r, off')"
    and o8: "io8_offset buf (offset + 24) codec = Some o8"
    and cnt: "read_hdr buf o8 codec = Some count"
    and k: "k < count"
    and id: "read_hdr buf (o8 + hdr_width codec + k * (hdr_width codec + 8)) codec = Some ioID"
    and v: "readBigUInt64BE buf (o8 + hdr_width codec + k * (hdr_width codec + 8) + hdr_width codec)
              = Some v"
    and last: "\<forall>j. k < j \<and> j < count \<longrightarrow>
              read_hdr buf (o8 + hdr_width codec + j * (hdr_width codec + 8)) codec \<noteq> Some ioID"
  shows "io_elements r ioID = Some (js_Number v) \<and> (v \<le> 2 ^ 53 \<longrightarrow> io_elements r ioID = Some v)"
proof -
  from parseAVLRecord_io [OF rec] obtain ev where
    io: "parseIOElement buf (offset + 24) codec = Some (io_elements r, ev, off')" ..
  from parseIOElement_io8 [OF io] o8 obtain d8 where
    d8: "parseIOElements buf o8 B8 codec = Some (d8, off')"
    and keep: "\<forall>k x. d8 k = Some x \<longrightarrow> io_elements r k = Some x" by auto
  from d8 cnt have loop: "io_loop buf codec B8 count 0 (o8 + hdr_width codec) Map.empty = Some (d8, off')"
    by (simp add: parseIOElements_def)
  have "d8 ioID = Some (js_Number v)"
    by (rule io_loop_entry [OF loop, of k]) (use k id v last in simp_all)
  with keep have "io_elements r ioID = Some (js_Number v)" by simp
  then show ?thesis by (simp add: js_Number_exact)
qed


theorem io8_value_is_double_witness:
  "io_elements (fst (the (parseAVLRecord (one_record_io8 0 5) 0 0x08))) 7 = Some 5"
proof -
  let ?buf = "one_record_io8 0 5"
  let ?res = "the (parseAVLRecord ?buf 0 0x08)"
  have rec: "parseAVLRecord ?buf 0 0x08 = Some (fst ?res, snd ?res)"
    unfolding one_record_io8_def by (simp add: parser_defs2)
  have o8: "io8_offset ?buf (0 + 24) 0x08 = Some 31"
    unfolding one_record_io8_def by (simp add: parser_defs2)
  have cnt: "read_hdr ?buf 31 0x08 = Some 1"
    unfolding one_record_io8_def by (simp add: parser_defs2)
  have id: "read_hdr ?buf (31 + hdr_width 0x08 + 0 * (hdr_width 0x08 + 8)) 0x08 = Some 7"
    unfolding one_record_io8_def by (simp add: parser_defs2)
  have v: "readBigUInt64BE ?buf (31 + hdr_width 0x08 + 0 * (hdr_width 0x08 + 8) + hdr_width 0x08)
             = Some 5"
    unfolding one_record_io8_def by (simp add: parser_defs2)
  have last: "\<forall>j. 0 < j \<and> j < (1::nat) \<longrightarrow>
      read_hdr ?buf (31 + hdr_width 0x08 + j * (hdr_width 0x08 + 8)) 0x08 \<noteq> Some 7"
    by simp
  from io8_value_is_double [OF rec o8 cnt _ id v last] show ?thesis
    by (simp add: js_Number_def)
qed

section \<open>Codec 8 and Codec 8 Extended\<close>

lemma length_be_bytes: "length (be_bytes k n) = k"
  by (induction k arbitrary: n) (simp_all add: be_bytes.simps)

lemma be_nat_be_bytes_mod: "be_nat (be_bytes k n) = n mod 256 ^ k"
proof (induction k arbitrary: n)
  case 0
  show ?case by (simp add: be_nat_def be_bytes.simps)
next
  case (Suc k)
  have "be_nat (be_bytes (Suc k) n) = (n div 256) mod 256 ^ k * 256 + n mod 256"
    by (simp add: be_nat_snoc Suc unat_of_nat be_bytes.simps)
  also have "\<dots> = n mod 256 ^ Suc k"
    by (simp add: mod_mult2_eq)
  finally show ?case .
qed

lemma be_nat_be_bytes: "n < 256 ^ k \<Longrightarrow> be_nat (be_bytes k n) = n"
  by (simp add: be_nat_be_bytes_mod)

lemma read_be_mid:
  "j + n \<le> length xs \<Longrightarrow>
   read_be n (pre @ xs @ post) (length pre + j) = Some (be_nat (take n (drop j xs)))"
  by (simp add: read_be_def)

lemma read_be_at:
  "length xs = n \<Longrightarrow> read_be n (pre @ xs @ post) (length pre) = Some (be_nat xs)"
  using read_be_mid [of 0 n xs pre post] by simp

lemma read_be_be_bytes:
  "n < 256 ^ k \<Longrightarrow> read_be k (pre @ be_bytes k n @ post) (length pre) = Some n"
  by (simp add: read_be_at length_be_bytes be_nat_be_bytes)

lemma read_hdr_at:
  assumes "n < 256"
  shows "read_hdr (pre @ be_bytes (hdr_width codec) n @ post) (length pre) codec = Some n"
proof (cases "codec = 0x8E")
  case True
  from assms have "n < 256 ^ 2" by simp
  from read_be_be_bytes [OF this] True show ?thesis
    by (simp add: read_hdr_def hdr_width_def readUInt16BE_def)
next
  case False
  from assms have "n < 256 ^ 1" by simp
  from read_be_be_bytes [OF this] False show ?thesis
    by (simp add: read_hdr_def hdr_width_def readUInt8_def)
qed

lemma read_value_at:
  assumes "v < 256 ^ width bl"
  shows "read_value (pre @ be_bytes (width bl) v @ post) (length pre) bl = Some (dec_val bl v)"
  using read_be_be_bytes [OF assms, of pre post]
  by (cases bl)
     (simp_all add: dec_val_def readUInt8_def readUInt16BE_def readUInt32BE_def
        readBigUInt64BE_def)

lemma length_enc_entry: "length (enc_entry codec bl e) = hdr_width codec + width bl"
  by (simp add: enc_entry_def length_be_bytes)

lemma io_loop_encoded:
  "list_all (entry_fits bl) es \<Longrightarrow> count = i + length es \<Longrightarrow>
   io_loop (pre @ concat (map (enc_entry codec bl) es) @ post) codec bl count i (length pre) io
     = Some (foldl (put_entry bl) io es,
             length pre + length (concat (map (enc_entry codec bl) es)))"
proof (induction es arbitrary: pre i io)
  case Nil
  then show ?case by (subst io_loop.simps) simp
next
  case (Cons e es)
  let ?rest = "concat (map (enc_entry codec bl) es)"
  let ?buf = "pre @ concat (map (enc_entry codec bl) (e # es)) @ post"
  from Cons.prems(1) have "entry_fits bl e" and fits: "list_all (entry_fits bl) es"
    by simp_all
  then have fit: "fst e < 256" "snd e < 256 ^ width bl"
    by (simp_all add: entry_fits_def)
  have b1: "?buf = pre @ be_bytes (hdr_width codec) (fst e) @
                (be_bytes (width bl) (snd e) @ ?rest @ post)"
    by (simp add: enc_entry_def)
  have b2: "?buf = (pre @ be_bytes (hdr_width codec) (fst e)) @ be_bytes (width bl) (snd e) @
                (?rest @ post)"
    by (simp add: enc_entry_def)
  have b3: "?buf = (pre @ enc_entry codec bl e) @ ?rest @ post"
    by simp
  have h: "read_hdr ?buf (length pre) codec = Some (fst e)"
    unfolding b1 using fit(1) by (rule read_hdr_at)
  have "read_value ?buf (length (pre @ be_bytes (hdr_width codec) (fst e))) bl
          = Some (dec_val bl (snd e))"
    unfolding b2 using fit(2) by (rule read_value_at)
  then have v: "read_value ?buf (length pre + hdr_width codec) bl = Some (dec_val bl (snd e))"
    by (simp add: length_be_bytes)
  have cnt: "count = Suc i + length es" using Cons.prems(2) by simp
  have "io_loop ?buf codec bl count (Suc i) (length (pre @ enc_entry codec bl e))
          (io(fst e \<mapsto> dec_val bl (snd e)))
        = Some (foldl (put_entry bl) (io(fst e \<mapsto> dec_val bl (snd e))) es,
                length (pre @ enc_entry codec bl e) + length ?rest)"
    unfolding b3 by (rule Cons.IH [OF fits cnt])
  then have r: "io_loop ?buf codec bl count (Suc i) (length pre + hdr_width codec + width bl)
          (io(fst e \<mapsto> dec_val bl (snd e)))
        = Some (foldl (put_entry bl) (io(fst e \<mapsto> dec_val bl (snd e))) es,
                length pre + length (concat (map (enc_entry codec bl) (e # es))))"
    by (simp add: length_enc_entry add.assoc)
  have lt: "i < count" using Cons.prems(2) by simp
  show ?case
    by (subst io_loop.simps) (simp add: lt h v r put_entry_def del: map_append concat.simps list.map)
qed

lemma parseIOElements_encoded:
  assumes "group_fits bl es"
  shows "parseIOElements (pre @ enc_group codec bl es @ post) (length pre) bl codec
           = Some (group_map bl es, length pre + length (enc_group codec bl es))"
proof -
  let ?hw = "hdr_width codec"
  let ?body = "concat (map (enc_entry codec bl) es)"
  let ?buf = "pre @ enc_group codec bl es @ post"
  from assms have len: "length es < 256" and fits: "list_all (entry_fits bl) es"
    by (simp_all add: group_fits_def)
  have b1: "?buf = pre @ be_bytes ?hw (length es) @ (?body @ post)"
    by (simp add: enc_group_def)
  have b2: "?buf = (pre @ be_bytes ?hw (length es)) @ ?body @ post"
    by (simp add: enc_group_def)
  have h: "read_hdr ?buf (length pre) codec = Some (length es)"
    unfolding b1 using len by (rule read_hdr_at)
  have "io_loop ?buf codec bl (length es) 0 (length (pre @ be_bytes ?hw (length es))) Map.empty
          = Some (foldl (put_entry bl) Map.empty es,
                  length (pre @ be_bytes ?hw (length es)) + length ?body)"
    unfolding b2 by (rule io_loop_encoded [OF fits]) simp
  then have "io_loop ?buf codec bl (length es) 0 (length pre + ?hw) Map.empty
          = Some (group_map bl es, length pre + length (enc_group codec bl es))"
    by (simp add: length_be_bytes group_map_def enc_group_def add.assoc)
  with h show ?thesis by (simp add: parseIOElements_def)
qed

lemma parseIOElement_encoded:
  assumes "section_fits sec"
  shows "parseIOElement (pre @ enc_io_section codec sec @ post) (length pre) codec
           = Some (section_map sec, sec_event sec,
                   length pre + length (enc_io_section codec sec))"
proof -
  let ?hw = "hdr_width codec"
  let ?E = "be_bytes ?hw (sec_event sec)"
  let ?T = "be_bytes ?hw (sec_total sec)"
  let ?G1 = "enc_group codec B1 (sec_group1 sec)"
  let ?G2 = "enc_group codec B2 (sec_group2 sec)"
  let ?G4 = "enc_group codec B4 (sec_group4 sec)"
  let ?G8 = "enc_group codec B8 (sec_group8 sec)"
  let ?buf = "pre @ enc_io_section codec sec @ post"
  from assms have ev: "sec_event sec < 256" and tot: "sec_total sec < 256"
    and f1: "group_fits B1 (sec_group1 sec)" and f2: "group_fits B2 (sec_group2 sec)"
    and f4: "group_fits B4 (sec_group4 sec)" and f8: "group_fits B8 (sec_group8 sec)"
    by (simp_all add: section_fits_def)
  have bE: "?buf = pre @ ?E @ (?T @ ?G1 @ ?G2 @ ?G4 @ ?G8 @ post)"
    by (simp add: enc_io_section_def)
  have bT: "?buf = (pre @ ?E) @ ?T @ (?G1 @ ?G2 @ ?G4 @ ?G8 @ post)"
    by (simp add: enc_io_section_def)
  have b1: "?buf = (pre @ ?E @ ?T) @ ?G1 @ (?G2 @ ?G4 @ ?G8 @ post)"
    by (simp add: enc_io_section_def)
  have b2: "?buf = (pre @ ?E @ ?T @ ?G1) @ ?G2 @ (?G4 @ ?G8 @ post)"
    by (simp add: enc_io_section_def)
  have b4: "?buf = (pre @ ?E @ ?T @ ?G1 @ ?G2) @ ?G4 @ (?G8 @ post)"
    by (simp add: enc_io_section_def)
  have b8: "?buf = (pre @ ?E @ ?T @ ?G1 @ ?G2 @ ?G4) @ ?G8 @ post"
    by (simp add: enc_io_section_def)
  have rE: "read_hdr ?buf (length pre) codec = Some (sec_event sec)"
    unfolding bE using ev by (rule read_hdr_at)
  have "read_hdr ?buf (length (pre @ ?E)) codec = Some (sec_total sec)"
    unfolding bT using tot by (rule read_hdr_at)
  then have rT: "read_hdr ?buf (length pre + ?hw) codec = Some (sec_total sec)"
    by (simp add: length_be_bytes)
  have "parseIOElements ?buf (length (pre @ ?E @ ?T)) B1 codec
          = Some (group_map B1 (sec_group1 sec), length (pre @ ?E @ ?T) + length ?G1)"
    unfolding b1 using f1 by (rule parseIOElements_encoded)
  then have r1: "parseIOElements ?buf (length pre + ?hw + ?hw) B1 codec
          = Some (group_map B1 (sec_group1 sec), length pre + ?hw + ?hw + length ?G1)"
    by (simp add: length_be_bytes add.assoc)
  have "parseIOElements ?buf (length (pre @ ?E @ ?T @ ?G1)) B2 codec
          = Some (group_map B2 (sec_group2 sec), length (pre @ ?E @ ?T @ ?G1) + length ?G2)"
    unfolding b2 using f2 by (rule parseIOElements_encoded)
  then have r2: "parseIOElements ?buf (length pre + ?hw + ?hw + length ?G1) B2 codec
          = Some (group_map B2 (sec_group2 sec),
                  length pre + ?hw + ?hw + length ?G1 + length ?G2)"
    by (simp add: length_be_bytes add.assoc)
  have "parseIOElements ?buf (length (pre @ ?E @ ?T @ ?G1 @ ?G2)) B4 codec
          = Some (group_map B4 (sec_group4 sec),
                  length (pre @ ?E @ ?T @ ?G1 @ ?G2) + length ?G4)"
    unfolding b4 using f4 by (rule parseIOElements_encoded)
  then have r4: "parseIOElements ?buf (length pre + ?hw + ?hw + length ?G1 + length ?G2) B4 codec
          = Some (group_map B4 (sec_group4 sec),
                  length pre + ?hw + ?hw + length ?G1 + length ?G2 + length ?G4)"
    by (simp add: length_be_bytes add.assoc)
  have "parseIOElements ?buf (length (pre @ ?E @ ?T @ ?G1 @ ?G2 @ ?G4)) B8 codec
          = Some (group_map B8 (sec_group8 sec),
                  length (pre @ ?E @ ?T @ ?G1 @ ?G2 @ ?G4) + length ?G8)"
    unfolding b8 using f8 by (rule parseIOElements_encoded)
  then have r8: "parseIOElements ?buf
            (length pre + ?hw + ?hw + length ?G1 + length ?G2 + length ?G4) B8 codec
          = Some (group_map B8 (sec_group8 sec),
                  length pre + ?hw + ?hw + length ?G1 + length ?G2 + length ?G4 + length ?G8)"
    by (simp add: length_be_bytes add.assoc)
  have len: "length (enc_io_section codec sec)
               = ?hw + ?hw + length ?G1 + length ?G2 + length ?G4 + length ?G8"
    by (simp add: enc_io_section_def length_be_bytes)
  show ?thesis
    unfolding parseIOElement_def Let_def
    by (simp add: rE rT r1 r2 r4 r8 len section_map_def)
qed

lemma parseGPSElement_mid:
  assumes "length fixed = 24"
  shows "parseGPSElement (pre @ fixed @ rest) (length pre + 9)
           = Some (fst (the (parseGPSElement fixed 9)), length pre + 24)"
proof -
  have m: "\<And>j n. j + n \<le> 24 \<Longrightarrow>
      read_be n (pre @ fixed @ rest) (length pre + j) = Some (be_nat (take n (drop j fixed)))"
    using assms by (simp add: read_be_mid)
  have f: "\<And>j n. j + n \<le> 24 \<Longrightarrow> read_be n fixed j = Some (be_nat (take n (drop j fixed)))"
    using assms by (simp add: read_be_def)
  have a: "length pre + 9 + 4 = length pre + 13" "length pre + 9 + 4 + 4 = length pre + 17"
    "length pre + 9 + 4 + 4 + 2 = length pre + 19" "length pre + 9 + 4 + 4 + 2 + 2 = length pre + 21"
    "length pre + 9 + 4 + 4 + 2 + 2 + 1 = length pre + 22"
    "length pre + 9 + 4 + 4 + 2 + 2 + 1 + 2 = length pre + 24"
    by simp_all
  have m': "\<And>j n. j + n \<le> 24 \<Longrightarrow>
      read_be n (pre @ fixed @ rest) (j + length pre) = Some (be_nat (take n (drop j fixed)))"
    using m by (simp add: add.commute)
  show ?thesis
    unfolding parseGPSElement_def Let_def readInt32BE_def readInt16BE_def readUInt16BE_def
      readUInt8_def a
    by (simp add: m m' f)
qed

lemma parseAVLRecord_encoded:
  assumes "section_fits sec" and "length fixed = 24"
  shows "parseAVLRecord (pre @ fixed @ enc_io_section codec sec @ post) (length pre) codec
           = map_option
               (\<lambda>t. (gps_element.extend (fst (the (parseGPSElement fixed 9)))
                        (avl_record.fields t (be_nat (take 1 (drop 8 fixed)))
                           (section_map sec) (sec_event sec)),
                     length pre + 24 + length (enc_io_section codec sec)))
               (toISOString (js_Number (be_nat (take 8 fixed))))"
proof -
  let ?buf = "pre @ fixed @ enc_io_section codec sec @ post"
  have ts: "readBigUInt64BE ?buf (length pre) = Some (be_nat (take 8 fixed))"
    using read_be_mid [of 0 8 fixed pre] assms(2) by (simp add: readBigUInt64BE_def)
  have pr: "readUInt8 ?buf (length pre + 8) = Some (be_nat (take 1 (drop 8 fixed)))"
    using read_be_mid [of 8 1 fixed pre] assms(2) by (simp add: readUInt8_def)
  have "length pre + 8 + 1 = length pre + 9" by simp
  then have gps: "parseGPSElement ?buf (length pre + 8 + 1)
               = Some (fst (the (parseGPSElement fixed 9)), length pre + 24)"
    by (simp only: parseGPSElement_mid [OF assms(2)])
  have "parseIOElement ((pre @ fixed) @ enc_io_section codec sec @ post) (length (pre @ fixed)) codec
          = Some (section_map sec, sec_event sec,
                  length (pre @ fixed) + length (enc_io_section codec sec))"
    using assms(1) by (rule parseIOElement_encoded)
  then have io: "parseIOElement ?buf (length pre + 24) codec
          = Some (section_map sec, sec_event sec,
                  length pre + 24 + length (enc_io_section codec sec))"
    using assms(2) by simp
  show ?thesis
    using ts pr gps io unfolding parseAVLRecord_def Let_def
    by (cases "toISOString (js_Number (be_nat (take 8 fixed)))") simp_all
qed

lemma avl_loop_stuck:
  "parseAVLRecord buf off codec = None \<Longrightarrow> fst (avl_loop buf codec n i off recs) = recs"
proof (induction "n - i" arbitrary: i)
  case 0
  then show ?case by (subst avl_loop.simps) simp
next
  case (Suc k)
  then have "i < n" "k = n - Suc i" by simp_all
  with Suc show ?case by (subst avl_loop.simps) simp
qed

lemma avl_loop_encoded:
  "list_all record_fits rs \<Longrightarrow> n = i + length rs \<Longrightarrow>
   fst (avl_loop (pre @ enc_records codec rs @ post) codec n i (length pre) recs)
     = recs @ decoded_records rs"
proof (induction rs arbitrary: pre i recs)
  case Nil
  then show ?case by (subst avl_loop.simps) simp
next
  case (Cons r rs)
  let ?buf = "pre @ enc_records codec (r # rs) @ post"
  let ?enc = "enc_io_section codec (snd r)"
  from Cons.prems(1) have "record_fits r" and fits: "list_all record_fits rs" by simp_all
  then have fit: "section_fits (snd r)" "length (fst r) = 24" by (simp_all add: record_fits_def)
  have b1: "?buf = pre @ fst r @ ?enc @ (enc_records codec rs @ post)"
    by (simp add: enc_records_def enc_record_def)
  have b2: "?buf = (pre @ enc_record codec r) @ enc_records codec rs @ post"
    by (simp add: enc_records_def)
  have lt: "i < n" using Cons.prems(2) by simp
  have p: "parseAVLRecord ?buf (length pre) codec
          = map_option (\<lambda>t. (decoded_record (fst r) (snd r) t, length pre + 24 + length ?enc))
              (toISOString (js_Number (be_nat (take 8 (fst r)))))"
    unfolding b1 decoded_record_def by (rule parseAVLRecord_encoded [OF fit])
  show ?case
  proof (cases "toISOString (js_Number (be_nat (take 8 (fst r))))")
    case None
    with p have "parseAVLRecord ?buf (length pre) codec = None" by simp
    from avl_loop_stuck [OF this] None show ?thesis by simp
  next
    case (Some t)
    have cnt: "n = Suc i + length rs" using Cons.prems(2) by simp
    have "fst (avl_loop ?buf codec n (Suc i) (length (pre @ enc_record codec r))
                 (recs @ [decoded_record (fst r) (snd r) t]))
            = (recs @ [decoded_record (fst r) (snd r) t]) @ decoded_records rs"
      unfolding b2 by (rule Cons.IH [OF fits cnt])
    then have "fst (avl_loop ?buf codec n (Suc i) (length pre + 24 + length ?enc)
                 (recs @ [decoded_record (fst r) (snd r) t]))
            = recs @ decoded_records (r # rs)"
      using Some fit(2) by (simp add: enc_record_def add.assoc)
    with p Some lt show ?thesis by (subst avl_loop.simps) simp
  qed
qed

lemma parseAVLData_encoded:
  assumes "length hdr = 8" and "codec = 0x08 \<or> codec = 0x8E"
    and "list_all record_fits rs" and "length rs < 256"
  shows "parseAVLData (hdr @ [of_nat codec, of_nat (length rs)] @ enc_records codec rs @ post)
           = Some \<lparr>codecID = codec, numberOfRecords = length rs, records = decoded_records rs\<rparr>"
proof -
  let ?buf = "hdr @ [of_nat codec, of_nat (length rs)] @ enc_records codec rs @ post"
  have r4: "readUInt32BE ?buf 4 \<noteq> None"
    using assms(1) by (simp add: readUInt32BE_def read_be_def)
  have "unat (of_nat codec :: byte) = codec"
    using assms(2) by (auto simp: unat_of_nat)
  moreover have "?buf ! 8 = of_nat codec" using assms(1) by (simp add: nth_append)
  ultimately have r8: "readUInt8 ?buf 8 = Some codec"
    using readUInt8_nth [of 8 ?buf] assms(1) by simp
  have "unat (of_nat (length rs) :: byte) = length rs"
    using assms(4) by (simp add: unat_of_nat)
  moreover have "?buf ! 9 = of_nat (length rs)" using assms(1) by (simp add: nth_append)
  ultimately have r9: "readUInt8 ?buf 9 = Some (length rs)"
    using readUInt8_nth [of 9 ?buf] assms(1) by simp
  have "fst (avl_loop ((hdr @ [of_nat codec, of_nat (length rs)]) @ enc_records codec rs @ post)
               codec (length rs) 0 (length (hdr @ [of_nat codec, of_nat (length rs)])) [])
          = [] @ decoded_records rs"
    by (rule avl_loop_encoded [OF assms(3)]) simp
  then have l: "fst (avl_loop ?buf codec (length rs) 0 10 []) = decoded_records rs"
    using assms(1) by simp
  from r4 r8 r9 l assms(2) show ?thesis
    by (auto simp: parseAVLData_def split: option.splits)
qed

text \<open>
  C8. A frame of records whose ids, counts and event ids fit one byte decodes to the same
  records (every field, the \<open>io_elements\<close> map included) whether its IO sections are
  written with two-byte headers under codec \<open>0x8E\<close> or with one-byte headers under
  codec \<open>0x08\<close>; the eight header bytes before the codec byte and the bytes after the
  records may differ. Both decodes succeed and give \<open>decoded_records\<close>.
\<close>

theorem codec8_extended_same_fields:
  assumes "length hdrE = 8" and "length hdr8 = 8"
    and "list_all record_fits rs" and "length rs < 256"
  shows "map_option records
           (parseAVLData (hdrE @ [0x8E, of_nat (length rs)] @ enc_records 0x8E rs @ postE))
         = map_option records
           (parseAVLData (hdr8 @ [0x08, of_nat (length rs)] @ enc_records 0x08 rs @ post8)) \<and>
         map_option records
           (parseAVLData (hdr8 @ [0x08, of_nat (length rs)] @ enc_records 0x08 rs @ post8))
         = Some (decoded_records rs)"
  using parseAVLData_encoded [OF assms(1) _ assms(3,4), of "0x8E" postE]
        parseAVLData_encoded [OF assms(2) _ assms(3,4), of "0x08" post8]
  by simp

lemma be_bytes_Suc0: "be_bytes (Suc 0) n = [of_nat n]"
  by (simp add: be_bytes.simps)

lemma be_bytes_1: "be_bytes 1 n = [of_nat n]"
  by (simp add: be_bytes.simps)

lemma be_bytes_2: "be_bytes 2 n = [of_nat (n div 256), of_nat n]"
proof -
  have "be_bytes (Suc (Suc 0)) n = [of_nat (n div 256), of_nat n]"
    by (simp add: be_bytes.simps)
  then show ?thesis by (simp only: numeral_2_eq_2)
qed

lemma be_bytes_4:
  "be_bytes 4 n = [of_nat (n div 256 div 256 div 256), of_nat (n div 256 div 256),
                   of_nat (n div 256), of_nat n]"
proof -
  have n4: "(4::nat) = Suc (Suc (Suc (Suc 0)))" by simp
  have "be_bytes (Suc (Suc (Suc (Suc 0)))) n =
          [of_nat (n div 256 div 256 div 256), of_nat (n div 256 div 256),
           of_nat (n div 256), of_nat n]"
    by (simp add: be_bytes.simps)
  then show ?thesis by (simp only: n4)
qed

lemma be_bytes_8:
  "be_bytes 8 n = [of_nat (n div 256 div 256 div 256 div 256 div 256 div 256 div 256),
                   of_nat (n div 256 div 256 div 256 div 256 div 256 div 256),
                   of_nat (n div 256 div 256 div 256 div 256 div 256),
                   of_nat (n div 256 div 256 div 256 div 256),
                   of_nat (n div 256 div 256 div 256), of_nat (n div 256 div 256),
                   of_nat (n div 256), of_nat n]"
proof -
  have n8: "(8::nat) = Suc (Suc (Suc (Suc (Suc (Suc (Suc (Suc 0)))))))" by simp
  have "be_bytes (Suc (Suc (Suc (Suc (Suc (Suc (Suc (Suc 0)))))))) n =
          [of_nat (n div 256 div 256 div 256 div 256 div 256 div 256 div 256),
           of_nat (n div 256 div 256 div 256 div 256 div 256 div 256),
           of_nat (n div 256 div 256 div 256 div 256 div 256),
           of_nat (n div 256 div 256 div 256 div 256),
           of_nat (n div 256 div 256 div 256), of_nat (n div 256 div 256),
           of_nat (n div 256), of_nat n]"
    by (simp add: be_bytes.simps)
  then show ?thesis by (simp only: n8)
qed

lemmas be_bytes_numeral = be_bytes_Suc0 be_bytes_1 be_bytes_2 be_bytes_4 be_bytes_8

lemmas enc_defs = enc_records_def enc_record_def enc_io_section_def enc_group_def
  enc_entry_def be_bytes_numeral hdr_width_def

theorem codec8_extended_same_fields_witness:
  "enc_records 0x08 [(example_fixed, example_section)] =
     example_fixed @ [1, 2, 1, 1, 1, 0, 0, 1, 7, 0, 0, 0, 0, 0, 0, 0, 5] \<and>
   enc_records 0x8E [(example_fixed, example_section)] =
     example_fixed @ [0, 1, 0, 2, 0, 1, 0, 1, 1, 0, 0, 0, 0, 0, 1, 0, 7, 0, 0, 0, 0, 0, 0, 0, 5] \<and>
   map_option records
     (parseAVLData ([0, 0, 0, 0, 0, 0, 0, 51] @ [0x8E, 1] @
                    enc_records 0x8E [(example_fixed, example_section)] @ []))
   = map_option records
     (parseAVLData ([0, 0, 0, 0, 0, 0, 0, 43] @ [0x08, 1] @
                    enc_records 0x08 [(example_fixed, example_section)] @ [])) \<and>
   parseAVLData ([0, 0, 0, 0, 0, 0, 0, 43] @ [0x08, 1] @
                 enc_records 0x08 [(example_fixed, example_section)] @ []) \<noteq> None \<and>
   length (decoded_records [(example_fixed, example_section)]) = 1"
proof -
  let ?rs = "[(example_fixed, example_section)]"
  have fits: "list_all record_fits ?rs"
    by (simp add: record_fits_def section_fits_def group_fits_def entry_fits_def
          example_fixed_def example_section_def)
  have n: "length ?rs < 256" by simp
  have e8: "enc_records 0x08 ?rs =
      example_fixed @ [1, 2, 1, 1, 1, 0, 0, 1, 7, 0, 0, 0, 0, 0, 0, 0, 5]"
    by (simp add: enc_defs example_section_def)
  have eE: "enc_records 0x8E ?rs =
      example_fixed @ [0, 1, 0, 2, 0, 1, 0, 1, 1, 0, 0, 0, 0, 0, 1, 0, 7, 0, 0, 0, 0, 0, 0, 0, 5]"
    by (simp add: enc_defs example_section_def)
  have d: "length (decoded_records ?rs) = 1"
    by (simp add: example_fixed_def read_defs js_Number_def toISOString_def)
  have h: "length [0, 0, 0, 0, 0, 0, 0, 51 :: byte] = 8" "length [0, 0, 0, 0, 0, 0, 0, 43 :: byte] = 8"
    by simp_all
  have one: "of_nat (length ?rs) = (1 :: byte)" by simp
  note eq = codec8_extended_same_fields [OF h fits n, of "[]" "[]", unfolded one]
  show ?thesis
  proof (intro conjI)
    show "enc_records 0x08 ?rs =
      example_fixed @ [1, 2, 1, 1, 1, 0, 0, 1, 7, 0, 0, 0, 0, 0, 0, 0, 5]" by (rule e8)
    show "enc_records 0x8E ?rs =
      example_fixed @ [0, 1, 0, 2, 0, 1, 0, 1, 1, 0, 0, 0, 0, 0, 1, 0, 7, 0, 0, 0, 0, 0, 0, 0, 5]"
      by (rule eE)
    show "map_option records
       (parseAVLData ([0, 0, 0, 0, 0, 0, 0, 51] @ [0x8E, 1] @ enc_records 0x8E ?rs @ []))
     = map_option records
       (parseAVLData ([0, 0, 0, 0, 0, 0, 0, 43] @ [0x08, 1] @ enc_records 0x08 ?rs @ []))"
      by (rule eq [THEN conjunct1])
    show "parseAVLData ([0, 0, 0, 0, 0, 0, 0, 43] @ [0x08, 1] @ enc_records 0x08 ?rs @ []) \<noteq> None"
      using eq [THEN conjunct2] by blast
    show "length (decoded_records ?rs) = 1" by (rule d)
  qed
qed

section \<open>The connection\<close>



text \<open>
  C6. While no identity is stored and the socket is open: with fewer than 17 accumulated
  bytes the listener writes nothing, suspends nothing and only keeps the accumulated bytes;
  with at least 17 bytes and an invalid identity it writes the single byte \<open>0x00\<close> and
  ends the socket; with a valid identity it stores the identity and awaits the resolver, and
  when the resolver returns a route it writes the single byte \<open>0x01\<close>, stores the route
  and clears the buffer.
\<close>

theorem awaiting_identity_transition:
  assumes "deviceIMEI s = None" and "\<not> ended s"
  shows
    "(length (dataBuffer s @ chunk) < 17 \<longrightarrow>
        on_data s chunk = (s\<lparr>dataBuffer := dataBuffer s @ chunk\<rparr>, None)) \<and>
     (17 \<le> length (dataBuffer s @ chunk) \<and> parseIMEI (dataBuffer s @ chunk) = None \<longrightarrow>
        on_data s chunk =
          (s\<lparr>dataBuffer := dataBuffer s @ chunk, written := written s @ [[0x00]],
             ended := True\<rparr>, None)) \<and>
     (\<forall>i route.
        17 \<le> length (dataBuffer s @ chunk) \<and> parseIMEI (dataBuffer s @ chunk) = Some i \<longrightarrow>
        on_data s chunk =
          (s\<lparr>dataBuffer := dataBuffer s @ chunk, deviceIMEI := Some i\<rparr>,
           Some (AwaitValidate i)) \<and>
        resume_validate (fst (on_data s chunk)) (Some route) =
          s\<lparr>deviceIMEI := Some i, clientConfig := Some route, dataBuffer := [],
            written := written s @ [[0x01]]\<rparr>)"
  using assms
  by (auto simp: on_data_def resume_validate_def socket_write_def socket_end_def Let_def)

theorem awaiting_identity_transition_witness:
  "on_data new_session (take 5 imei_frame) =
     (new_session\<lparr>dataBuffer := take 5 imei_frame\<rparr>, None) \<and>
   on_data new_session (replicate 17 0) =
     (new_session\<lparr>dataBuffer := replicate 17 0, written := [[0x00]], ended := True\<rparr>, None) \<and>
   resume_validate (fst (on_data new_session imei_frame)) (Some a_route) =
     new_session\<lparr>deviceIMEI := Some ''123456789012345'', clientConfig := Some a_route,
       dataBuffer := [], written := [[0x01]]\<rparr>"
proof -
  have h: "deviceIMEI new_session = None" "\<not> ended new_session"
    by (simp_all add: new_session_def)
  have e: "dataBuffer new_session = []" "written new_session = []"
    by (simp_all add: new_session_def)
  have l1: "length (dataBuffer new_session @ take 5 imei_frame) < 17"
    by (simp add: e imei_frame_def)
  have l2: "17 \<le> length (dataBuffer new_session @ replicate 17 0) \<and>
            parseIMEI (dataBuffer new_session @ replicate 17 0) = None"
    by (simp add: e parseIMEI_def read_defs eval_nat_numeral)
  have l3: "17 \<le> length (dataBuffer new_session @ imei_frame) \<and>
            parseIMEI (dataBuffer new_session @ imei_frame) = Some ''123456789012345''"
    by (simp add: e parseIMEI_imei_frame) (simp add: imei_frame_def)
  note t = awaiting_identity_transition [OF h]
  from t [of "take 5 imei_frame"] l1
  have c1: "on_data new_session (take 5 imei_frame) =
     (new_session\<lparr>dataBuffer := take 5 imei_frame\<rparr>, None)"
    by (simp add: e)
  from t [of "replicate 17 0"] l2
  have c2: "on_data new_session (replicate 17 0) =
     (new_session\<lparr>dataBuffer := replicate 17 0, written := [[0x00]], ended := True\<rparr>, None)"
    by (simp add: e)
  from t [of imei_frame] l3
  have "resume_validate (fst (on_data new_session imei_frame)) (Some a_route) =
     new_session\<lparr>deviceIMEI := Some ''123456789012345'', clientConfig := Some a_route,
       dataBuffer := [], written := written new_session @ [[0x01]]\<rparr>"
    by blast
  then have c3: "resume_validate (fst (on_data new_session imei_frame)) (Some a_route) =
     new_session\<lparr>deviceIMEI := Some ''123456789012345'', clientConfig := Some a_route,
       dataBuffer := [], written := [[0x01]]\<rparr>"
    by (simp add: e)
  from c1 c2 c3 show ?thesis by (intro conjI)
qed







section \<open>The cache of the router\<close>

lemma foldl_fire_other: "i \<notin> snd ` set ts \<Longrightarrow> foldl fire m ts i = m i"
  by (induction ts arbitrary: m) (auto simp: fire_def)

lemma foldl_fire_None: "m i = None \<Longrightarrow> foldl fire m ts i = None"
  by (induction ts arbitrary: m) (auto simp: fire_def)

lemma foldl_fire_hit: "i \<in> snd ` set ts \<Longrightarrow> foldl fire m ts i = None"
proof (induction ts arbitrary: m)
  case Nil
  then show ?case by simp
next
  case (Cons t ts)
  show ?case
  proof (cases "snd t = i")
    case True
    then have "fire m t i = None" by (simp add: fire_def)
    then show ?thesis by (simp add: foldl_fire_None)
  next
    case False
    with Cons.prems have "i \<in> snd ` set ts" by auto
    from Cons.IH [OF this] show ?thesis by simp
  qed
qed

lemma live_step:
  assumes "live T i r" and "now r + elapsed [e] < T"
  shows "live T i (router_step r e) \<and> now (router_step r e) = now r + elapsed [e]"
proof (cases e)
  case (Lookup j)
  with assms show ?thesis
    by (auto simp: live_def validateDevice_begin_def split: option.splits)
next
  case (RegistryReply j rep)
  with assms show ?thesis
    by (auto simp: live_def validateDevice_resume_def Let_def
             split: registry_reply.splits option.splits)
next
  case (Advance dt)
  from assms Advance have lt: "now r + dt < T" by simp
  from assms(1) have all: "list_all (\<lambda>t. snd t = i \<longrightarrow> T \<le> fst t) (timers r)"
    and mem: "(T, i) \<in> set (timers r)" and c: "clientCache r i \<noteq> None"
    and up: "T \<le> now r + 300000"
    by (simp_all add: live_def)
  have "i \<notin> snd ` set (filter (\<lambda>t. fst t \<le> now r + dt) (timers r))"
    using all lt by (auto simp: list_all_iff)
  then have keep: "foldl fire (clientCache r) (filter (\<lambda>t. fst t \<le> now r + dt) (timers r)) i
              = clientCache r i"
    by (rule foldl_fire_other)
  have "list_all (\<lambda>t. snd t = i \<longrightarrow> T \<le> fst t) (filter (\<lambda>t. \<not> fst t \<le> now r + dt) (timers r))"
    using all by (auto simp: list_all_iff)
  with keep c mem lt up Advance show ?thesis
    by (auto simp: live_def advance_def Let_def)
qed

lemma live_run:
  "live T i r \<Longrightarrow> now r + elapsed evs < T \<Longrightarrow>
   live T i (router_run r evs) \<and> now (router_run r evs) = now r + elapsed evs"
proof (induction evs arbitrary: r)
  case Nil
  then show ?case by (simp add: router_run_def)
next
  case (Cons e evs)
  have split: "elapsed (e # evs) = elapsed [e] + elapsed evs" by (cases e) simp_all
  with Cons.prems have "now r + elapsed [e] < T" by simp
  from live_step [OF Cons.prems(1) this]
  have l: "live T i (router_step r e)" and n: "now (router_step r e) = now r + elapsed [e]"
    by simp_all
  from Cons.prems(2) split n have "now (router_step r e) + elapsed evs < T" by simp
  from Cons.IH [OF l this] n split show ?case by (simp add: router_run_def)
qed

lemma resume_live:
  assumes res: "validateDevice_resume r i rep = (Some cfg, r1)"
    and first: "list_all (\<lambda>t. snd t \<noteq> i) (timers r)"
  shows "live (now r + 300000) i r1 \<and> now r1 = now r"
proof -
  from res obtain row where
    r1: "r1 = r\<lparr>clientCache := (clientCache r)(i \<mapsto> cfg),
                 timers := timers r @ [(now r + 5 * 60 * 1000, i)]\<rparr>"
    by (auto simp: validateDevice_resume_def Let_def
             split: registry_reply.splits option.splits if_splits)
  from first have "list_all (\<lambda>t. snd t = i \<longrightarrow> now r + 300000 \<le> fst t) (timers r)"
    by (auto simp: list_all_iff)
  then show ?thesis unfolding r1 by (simp add: live_def)
qed

lemma pending_step:
  assumes "timer_pending T i r" and "now r + elapsed [e] < T"
  shows "timer_pending T i (router_step r e) \<and> now (router_step r e) = now r + elapsed [e]"
proof (cases e)
  case (Lookup j)
  with assms show ?thesis
    by (auto simp: timer_pending_def validateDevice_begin_def split: option.splits)
next
  case (RegistryReply j rep)
  with assms show ?thesis
    by (auto simp: timer_pending_def validateDevice_resume_def Let_def
             split: registry_reply.splits option.splits)
next
  case (Advance dt)
  with assms show ?thesis
    by (auto simp: timer_pending_def advance_def Let_def)
qed

lemma pending_run:
  "timer_pending T i r \<Longrightarrow> now r + elapsed evs < T \<Longrightarrow>
   timer_pending T i (router_run r evs) \<and> now (router_run r evs) = now r + elapsed evs"
proof (induction evs arbitrary: r)
  case Nil
  then show ?case by (simp add: router_run_def)
next
  case (Cons e evs)
  have split: "elapsed (e # evs) = elapsed [e] + elapsed evs" by (cases e) simp_all
  with Cons.prems have "now r + elapsed [e] < T" by simp
  from pending_step [OF Cons.prems(1) this]
  have l: "timer_pending T i (router_step r e)"
    and n: "now (router_step r e) = now r + elapsed [e]"
    by simp_all
  from Cons.prems(2) split n have "now (router_step r e) + elapsed evs < T" by simp
  from Cons.IH [OF l this] n split show ?case by (simp add: router_run_def)
qed

lemma resume_pending:
  assumes "validateDevice_resume r i rep = (Some cfg, r1)"
  shows "timer_pending (now r + 300000) i r1 \<and> now r1 = now r"
  using assms
  by (auto simp: validateDevice_resume_def timer_pending_def Let_def
           split: registry_reply.splits option.splits if_splits)

lemma resume_route_indep:
  "fst (validateDevice_resume r i rep) = fst (validateDevice_resume r' i' rep)"
  by (simp add: validateDevice_resume_def Let_def split: registry_reply.splits option.splits)

lemma advance_keeps:
  assumes "live T i r" and "now r + dt < T"
  shows "clientCache (advance r dt) i = clientCache r i"
proof -
  from assms(1) have all: "list_all (\<lambda>t. snd t = i \<longrightarrow> T \<le> fst t) (timers r)"
    by (simp add: live_def)
  have "i \<notin> snd ` set (filter (\<lambda>t. fst t \<le> now r + dt) (timers r))"
    using all assms(2) by (auto simp: list_all_iff)
  from foldl_fire_other [OF this] show ?thesis by (simp add: advance_def Let_def)
qed

lemma cached_step:
  assumes "live T i r" and "clientCache r i = Some c" and "now r + elapsed [e] < T"
  shows "clientCache (router_step r e) i = Some (latest_route i c [e])"
proof (cases e)
  case (Lookup j)
  with assms show ?thesis by (auto simp: validateDevice_begin_def split: option.splits)
next
  case (RegistryReply j rep)
  show ?thesis
  proof (cases "fst (validateDevice_resume r j rep)")
    case None
    then have "snd (validateDevice_resume r j rep) = r"
      by (auto simp: validateDevice_resume_def Let_def
               split: registry_reply.splits option.splits if_splits)
    moreover from None have "fst (validateDevice_resume new_router j rep) = None"
      using resume_route_indep [of r j rep new_router j] by simp
    ultimately show ?thesis using RegistryReply assms(2) by auto
  next
    case (Some c')
    then have "clientCache (snd (validateDevice_resume r j rep)) = (clientCache r)(j \<mapsto> c')"
      by (auto simp: validateDevice_resume_def Let_def
               split: registry_reply.splits option.splits if_splits)
    moreover from Some have "fst (validateDevice_resume new_router j rep) = Some c'"
      using resume_route_indep [of r j rep new_router j] by simp
    ultimately show ?thesis using RegistryReply assms(2) by auto
  qed
next
  case (Advance dt)
  with assms advance_keeps [of T i r dt] show ?thesis by simp
qed

lemma latest_route_Cons: "latest_route i c (e # evs) = latest_route i (latest_route i c [e]) evs"
  by (cases e) simp_all

lemma cached_run:
  "live T i r \<Longrightarrow> clientCache r i = Some c \<Longrightarrow> now r + elapsed evs < T \<Longrightarrow>
   clientCache (router_run r evs) i = Some (latest_route i c evs)"
proof (induction evs arbitrary: r c)
  case Nil
  then show ?case by (simp add: router_run_def)
next
  case (Cons e evs)
  have split: "elapsed (e # evs) = elapsed [e] + elapsed evs" by (cases e) simp_all
  with Cons.prems have lt: "now r + elapsed [e] < T" by simp
  from live_step [OF Cons.prems(1) lt]
  have l: "live T i (router_step r e)" and n: "now (router_step r e) = now r + elapsed [e]"
    by simp_all
  from cached_step [OF Cons.prems(1,2) lt]
  have c: "clientCache (router_step r e) i = Some (latest_route i c [e])" .
  from Cons.prems(3) split n have "now (router_step r e) + elapsed evs < T" by simp
  from Cons.IH [OF l c this] show ?case
    by (simp add: router_run_def latest_route_Cons [of i c e evs])
qed

lemma resume_cached:
  "validateDevice_resume r i rep = (Some cfg, r1) \<Longrightarrow> clientCache r1 i = Some cfg"
  by (auto simp: validateDevice_resume_def Let_def
           split: registry_reply.splits option.splits if_splits)

text \<open>
  C7. A successful resolution caches the route and sets a timer 300000 ms ahead. Whatever
  lookups, registry answers and passages of time follow while less than 300000 ms have
  elapsed: if the resolution was a first one (no timer for the identity was pending), the
  cache holds the route of the latest successful resolution of that identity (the first
  one, unless a later answer has replaced it), and a lookup returns exactly that route,
  changes nothing and sends no query to the registry; and as soon as the clock has moved
  300000 ms or more past the insertion, the entry is gone, whatever happened in between,
  and a lookup sends a new query.
\<close>

theorem cache_window:
  assumes res: "validateDevice_resume r i rep = (Some cfg, r1)"
    and win: "elapsed evs < 300000"
  shows "(list_all (\<lambda>t. snd t \<noteq> i) (timers r) \<longrightarrow>
            clientCache (router_run r1 evs) i = Some (latest_route i cfg evs) \<and>
            validateDevice_begin (router_run r1 evs) i
               = (Returned (Some (latest_route i cfg evs)), router_run r1 evs)) \<and>
         (\<forall>dt. 300000 \<le> elapsed evs + dt \<longrightarrow>
            clientCache (advance (router_run r1 evs) dt) i = None \<and>
            validateDevice_begin (advance (router_run r1 evs) dt) i
              = (AwaitingRegistry,
                 (advance (router_run r1 evs) dt)
                   \<lparr>queries := queries (advance (router_run r1 evs) dt) @ [i]\<rparr>))"
proof -
  let ?T = "now r + 300000"
  let ?r2 = "router_run r1 evs"
  from resume_pending [OF res] have p1: "timer_pending ?T i r1" and n1: "now r1 = now r"
    by simp_all
  from win n1 have w: "now r1 + elapsed evs < ?T" by simp
  from pending_run [OF p1 w] n1
  have p2: "timer_pending ?T i ?r2" and n2: "now ?r2 = now r + elapsed evs" by simp_all
  have hit: "clientCache ?r2 i = Some (latest_route i cfg evs)"
    if first: "list_all (\<lambda>t. snd t \<noteq> i) (timers r)"
  proof -
    from resume_live [OF res first] have "live ?T i r1" by simp
    from cached_run [OF this resume_cached [OF res] w] show ?thesis .
  qed
  have exp: "clientCache (advance ?r2 dt) i = None" if "300000 \<le> elapsed evs + dt" for dt
  proof -
    from p2 have "(?T, i) \<in> set (timers ?r2)" by (simp add: timer_pending_def)
    moreover from that n2 have "?T \<le> now ?r2 + dt" by simp
    ultimately have "i \<in> snd ` set (filter (\<lambda>t. fst t \<le> now ?r2 + dt) (timers ?r2))"
      by force
    from foldl_fire_hit [OF this] show ?thesis by (simp add: advance_def Let_def)
  qed
  from hit exp show ?thesis by (auto simp: validateDevice_begin_def)
qed

theorem cache_window_witness:
  "validateDevice_resume new_router ''123456789012345'' (Reply None (Some a_row))
     = (Some a_route,
        snd (validateDevice_resume new_router ''123456789012345'' (Reply None (Some a_row)))) \<and>
   elapsed some_events = 299999 \<and>
   validateDevice_begin
     (router_run
        (snd (validateDevice_resume new_router ''123456789012345'' (Reply None (Some a_row))))
        some_events) ''123456789012345''
     = (Returned (Some a_route),
        router_run
          (snd (validateDevice_resume new_router ''123456789012345'' (Reply None (Some a_row))))
          some_events) \<and>
   clientCache
     (advance
        (router_run
           (snd (validateDevice_resume new_router ''123456789012345'' (Reply None (Some a_row))))
           some_events) 1) ''123456789012345'' = None"
proof -
  let ?i = "''123456789012345''"
  let ?r1 = "snd (validateDevice_resume new_router ?i (Reply None (Some a_row)))"
  have res: "validateDevice_resume new_router ?i (Reply None (Some a_row)) = (Some a_route, ?r1)"
    by (simp add: validateDevice_resume_def falsy_def a_row_def a_route_def Let_def)
  have first: "list_all (\<lambda>t. snd t \<noteq> ?i) (timers new_router)"
    by (simp add: new_router_def)
  have e: "elapsed some_events = 299999" by (simp add: some_events_def)
  then have win: "elapsed some_events < 300000" by simp
  have lr: "latest_route ?i a_route some_events = a_route"
    by (simp add: some_events_def)
  note w = cache_window [OF res win]
  have late: "300000 \<le> elapsed some_events + 1" using e by simp
  from w first have "validateDevice_begin (router_run ?r1 some_events) ?i
       = (Returned (Some (latest_route ?i a_route some_events)), router_run ?r1 some_events)"
    by blast
  then have a: "validateDevice_begin (router_run ?r1 some_events) ?i
       = (Returned (Some a_route), router_run ?r1 some_events)"
    by (simp only: lr)
  from w late have b: "clientCache (advance (router_run ?r1 some_events) 1) ?i = None" by blast
  from res e a b show ?thesis by (intro conjI)
qed

end
